theory Spec2Isabelle
  imports Complex_Main "HOL-Library.Word" "HOL-Library.Log_Nat"
begin

section \<open>The HTTP client request engine of \<open>clients/http/request.cpp\<close>\<close>

text \<open>
  A shallow embedding of \<open>Request::RequestImpl\<close>: the retry state machine
  (\<open>async_perform\<close>, \<open>perform_request\<close>, \<open>on_retry\<close>, \<open>on_retry_timer\<close>,
  \<open>on_completed\<close>), the header parser, the PUT body feeder and the backoff and
  aggregate-timeout arithmetic. The object is a record that every member function takes
  and returns; the calls it makes on its collaborators (promise, statistics, transfer
  handle, timer) are appended to a log kept in the record.
\<close>

subsection \<open>Machine types and constants\<close>

text \<open>
  \<open>short\<close> is a 16-bit and \<open>int\<close> a 32-bit two's complement integer, read with
  \<open>sint\<close>; \<open>size_t\<close> is an unsigned 64-bit integer, read with \<open>unat\<close>. Values
  of type \<open>long\<close> that stay far below \<open>2^63\<close> (delays, response codes, the sum
  of backoff delays) are integers.
\<close>

type_synonym short = "16 word"
type_synonym cint = "32 word"
type_synonym size_t = "64 word"

text \<open>\<open>std::error_code\<close>: its value; \<open>if (err)\<close> tests for a value other than 0.\<close>

type_synonym error_code = int

definition kMaxRetryInTimeout :: int where
  "kMaxRetryInTimeout = 5"

definition kEBBaseTime :: int where
  "kEBBaseTime = 25"

definition kLeastBadHttpCodeForEB :: int where
  "kLeastBadHttpCodeForEB = 500"

text \<open>
  \<open>1 << k\<close> on \<open>int\<close>. Every use in the file has \<open>0 \<le> k \<le> 5\<close> when the
  index it is computed from is at least 1; a negative \<open>k\<close> is undefined behaviour in
  the source and is read here as a shift by 0.
\<close>

definition shl1 :: "int \<Rightarrow> int" where
  "shl1 k = 2 ^ nat k"

subsection \<open>Data\<close>

text \<open>
  Modelled from the spec: the header mapping of \<open>Response\<close>, whose declaration is not
  part of the sources: case-preserved keys to values, an insertion replacing the prior
  value of the same key.
\<close>

record Response =
  headers :: "string \<rightharpoonup> string"

text \<open>The two completion handlers that \<open>perform_request\<close> is given.\<close>

datatype handler_type = OnCompleted | OnRetry

text \<open>The calls on the collaborators, in the order they are made.\<close>

datatype call =
    Stats_Start
  | Stats_StoreTimeToStart
  | Stats_FinishOk int
  | Stats_FinishEc error_code
  | Promise_set_value Response
  | Promise_set_exception error_code
  | Easy_async_perform handler_type
  | Timer_SingleshotAsync int

text \<open>
  The fields of \<open>RequestImpl\<close>; a member whose name ends in an underscore in the
  source has the suffix \<open>_m\<close> here. \<open>response_m\<close> is a shared pointer in the source;
  it is non-null from \<open>perform_request\<close> until \<open>on_completed\<close> moves it into the promise,
  which is the only period in which the transfer engine calls back, and the record keeps
  the pointee. \<open>put_method_cursor\<close> is the offset of the cursor into
  \<open>put_method_data\<close>, \<open>None\<close> for the null pointer. The last five fields are the
  state of the collaborators: the response code the transfer handle reports, the completion
  handler registered with the in-flight transfer, whether a read function is installed,
  whether the single-shot timer is armed, and the log of calls.
\<close>

record RequestImpl =
  response_m :: Response
  timeout_ms_m :: int
  retry_retries :: short
  retry_current :: short
  retry_on_fails :: bool
  put_method_data :: string
  put_method_cursor :: "nat option"
  put_method_rest_data_size :: nat
  span_m :: bool
  easy_response_code :: int
  easy_handler :: "handler_type option"
  easy_read_function :: bool
  timer_pending :: bool
  calls :: "call list"

text \<open>The constructor: the member initialisers of the class and \<open>timeout_ms_m = 0\<close>.\<close>

definition RequestImpl_new :: RequestImpl where
  "RequestImpl_new =
     \<lparr> response_m = \<lparr> headers = Map.empty \<rparr>,
       timeout_ms_m = 0,
       retry_retries = 1,
       retry_current = 1,
       retry_on_fails = False,
       put_method_data = [],
       put_method_cursor = None,
       put_method_rest_data_size = 0,
       span_m = False,
       easy_response_code = 0,
       easy_handler = None,
       easy_read_function = False,
       timer_pending = False,
       calls = [] \<rparr>"

subsection \<open>Configuration\<close>

definition set_timeout :: "int \<Rightarrow> RequestImpl \<Rightarrow> RequestImpl" where
  "set_timeout timeout_ms impl = impl\<lparr>timeout_ms_m := timeout_ms\<rparr>"

text \<open>
  \<open>RequestImpl::retry(int retries, bool on_fails)\<close> stores the \<open>int\<close> into a
  \<open>short\<close> field: the low 16 bits are kept.
\<close>

definition retry :: "cint \<Rightarrow> bool \<Rightarrow> RequestImpl \<Rightarrow> RequestImpl" where
  "retry retries on_fails impl =
     impl\<lparr>retry_retries := ucast retries, retry_current := 1, retry_on_fails := on_fails\<rparr>"

text \<open>\<open>Request::retry\<close> clamps a count that is not positive to 1 first.\<close>

definition Request_retry :: "cint \<Rightarrow> bool \<Rightarrow> RequestImpl \<Rightarrow> RequestImpl" where
  "Request_retry retries on_fails impl =
     retry (if sint retries \<le> 0 then 1 else retries) on_fails impl"

definition SetPutMethodData :: "string \<Rightarrow> RequestImpl \<Rightarrow> RequestImpl" where
  "SetPutMethodData data impl =
     impl\<lparr>put_method_data := data, put_method_cursor := None,
          put_method_rest_data_size := 0\<rparr>"

text \<open>\<open>Request::put(url, data)\<close>: stores the body and installs the read function.\<close>

definition Request_put :: "string \<Rightarrow> RequestImpl \<Rightarrow> RequestImpl" where
  "Request_put data impl = (SetPutMethodData data impl)\<lparr>easy_read_function := True\<rparr>"

subsection \<open>The PUT body feeder\<close>

text \<open>
  \<open>PutMethodReadCallback(out_buffer, size, nmemb, stream)\<close> returns the number of bytes
  copied, the bytes written to \<open>out_buffer\<close> and the updated object. The product
  \<open>nmemb * size\<close> is computed in \<open>size_t\<close>.
\<close>

definition PutMethodReadCallback ::
  "size_t \<Rightarrow> size_t \<Rightarrow> RequestImpl \<Rightarrow> nat \<times> string \<times> RequestImpl" where
  "PutMethodReadCallback sz nmemb impl =
     (let impl1 = (case put_method_cursor impl of
                     None \<Rightarrow> impl\<lparr>put_method_cursor := Some 0,
                                  put_method_rest_data_size := length (put_method_data impl)\<rparr>
                   | Some _ \<Rightarrow> impl);
          cursor = (case put_method_cursor impl1 of None \<Rightarrow> 0 | Some c \<Rightarrow> c);
          curl_buffer_size = unat (nmemb * sz);
          bytes_to_copy = min (put_method_rest_data_size impl1) curl_buffer_size;
          out = take bytes_to_copy (drop cursor (put_method_data impl1))
      in (bytes_to_copy, out,
          impl1\<lparr>put_method_cursor := Some (cursor + bytes_to_copy),
                put_method_rest_data_size := put_method_rest_data_size impl1 - bytes_to_copy\<rparr>))"

subsection \<open>The header parser\<close>

definition is_trimmed :: "char \<Rightarrow> bool" where
  "is_trimmed c = (c = CHR 0x0A \<or> c = CHR 0x0D \<or> c = CHR '' '')"

text \<open>
  \<open>rfind_not_space(ptr, size)\<close> as an offset from \<open>ptr\<close>: the loop walks down from
  \<open>size - 1\<close> and returns one past the last byte that is not a line feed, a carriage
  return or a space, and 0 when there is none.
\<close>

fun rfind_not_space :: "string \<Rightarrow> nat \<Rightarrow> nat" where
  "rfind_not_space ptr 0 = 0"
| "rfind_not_space ptr (Suc n) =
     (if is_trimmed (ptr ! n) then rfind_not_space ptr n else Suc n)"

text \<open>
  \<open>strchr(s, c)\<close> for a character other than NUL: the offset of the first \<open>c\<close> before
  the first NUL byte of \<open>s\<close>, if there is one.
\<close>

fun strchr :: "string \<Rightarrow> char \<Rightarrow> nat option" where
  "strchr [] c = None"
| "strchr (x # s) c =
     (if x = c then Some 0
      else if x = CHR 0x00 then None
      else map_option Suc (strchr s c))"

text \<open>
  \<open>parse_header(ptr, size)\<close> on the \<open>size\<close> bytes at \<open>ptr\<close>. The terminator is
  written at offset \<open>end\<close>; when nothing was trimmed that is the byte just after the
  supplied bytes. Key and value are built from their lengths, not up to a NUL.
\<close>

definition parse_header :: "string \<Rightarrow> RequestImpl \<Rightarrow> RequestImpl" where
  "parse_header ptr impl =
     (let end = rfind_not_space ptr (length ptr) in
      if end = 0 then impl
      else
        let mem = take end ptr @ CHR 0x00 # drop (Suc end) ptr in
        (case strchr mem CHR '':'' of
           None \<Rightarrow> impl
         | Some col_pos \<Rightarrow>
             let key = take col_pos mem;
                 val = take (end - col_pos - 1) (drop (col_pos + 1) mem)
             in impl\<lparr>response_m :=
                  (response_m impl)\<lparr>headers := (headers (response_m impl))(key \<mapsto> val)\<rparr>\<rparr>))"

text \<open>
  \<open>on_header(ptr, size, nmemb, userdata)\<close>: \<open>userdata\<close> is \<open>None\<close> for the null
  pointer; \<open>ptr\<close> are the bytes readable at the pointer, of which the first
  \<open>size * nmemb\<close> are the header line.
\<close>

definition on_header ::
  "string \<Rightarrow> size_t \<Rightarrow> size_t \<Rightarrow> RequestImpl option \<Rightarrow> size_t \<times> RequestImpl option" where
  "on_header ptr sz nmemb userdata =
     (let data_size = sz * nmemb in
      (data_size,
       (case userdata of
          None \<Rightarrow> None
        | Some self \<Rightarrow> Some (parse_header (take (unat data_size) ptr) self))))"

subsection \<open>The retry state machine\<close>

definition log_call :: "call \<Rightarrow> RequestImpl \<Rightarrow> RequestImpl" where
  "log_call c impl = impl\<lparr>calls := calls impl @ [c]\<rparr>"

text \<open>
  \<open>perform_request(handler)\<close>: a fresh \<open>Response\<close>, then the transfer is submitted
  with the handler.
\<close>

definition perform_request :: "handler_type \<Rightarrow> RequestImpl \<Rightarrow> RequestImpl" where
  "perform_request handler impl =
     log_call (Easy_async_perform handler)
       (impl\<lparr>response_m := \<lparr> headers = Map.empty \<rparr>, easy_handler := Some handler\<rparr>)"

definition async_perform :: "RequestImpl \<Rightarrow> RequestImpl" where
  "async_perform impl =
     (let impl1 = log_call Stats_Start (impl\<lparr>span_m := True\<rparr>) in
      if sint (retry_retries impl1) \<le> 1 then perform_request OnCompleted impl1
      else perform_request OnRetry impl1)"

text \<open>
  \<open>on_completed(holder, err)\<close>. The exception that \<open>PrepareException(err)\<close> builds is
  represented by the error code it is built from.
\<close>

definition on_completed :: "RequestImpl \<Rightarrow> error_code \<Rightarrow> RequestImpl" where
  "on_completed holder err =
     (let h1 = log_call Stats_StoreTimeToStart holder;
          h2 = (if err \<noteq> 0
                then log_call (Promise_set_exception err) (log_call (Stats_FinishEc err) h1)
                else log_call (Promise_set_value (response_m h1))
                       (log_call (Stats_FinishOk (easy_response_code h1)) h1))
      in h2\<lparr>span_m := False\<rparr>)"

text \<open>
  The delay before the next attempt, from the number of attempts used and the value
  \<open>rand()\<close> returned (between 0 and \<open>RAND_MAX\<close>).
\<close>

definition backoff_ms :: "int \<Rightarrow> nat \<Rightarrow> int" where
  "backoff_ms current rnd =
     kEBBaseTime * (int rnd mod shl1 (min (current - 1) kMaxRetryInTimeout) + 1)"

definition not_need_retry :: "RequestImpl \<Rightarrow> error_code \<Rightarrow> bool" where
  "not_need_retry holder err =
     ((err = 0 \<and> easy_response_code holder < kLeastBadHttpCodeForEB)
      \<or> sint (retry_retries holder) \<le> sint (retry_current holder)
      \<or> (err \<noteq> 0 \<and> \<not> retry_on_fails holder))"

text \<open>
  \<open>on_retry(holder, err)\<close>; \<open>rnd\<close> is what \<open>rand()\<close> returns if it is called.
\<close>

definition on_retry :: "RequestImpl \<Rightarrow> error_code \<Rightarrow> nat \<Rightarrow> RequestImpl" where
  "on_retry holder err rnd =
     (let h1 = log_call Stats_StoreTimeToStart holder;
          h2 = (if err \<noteq> 0 then log_call (Stats_FinishEc err) h1
                else log_call (Stats_FinishOk (easy_response_code h1)) h1)
      in if not_need_retry h2 err then on_completed h2 err
         else
           let timeout_ms = backoff_ms (sint (retry_current h2)) rnd;
               h3 = h2\<lparr>retry_current := retry_current h2 + 1\<rparr>
           in log_call (Timer_SingleshotAsync timeout_ms) (h3\<lparr>timer_pending := True\<rparr>))"

definition on_retry_timer :: "RequestImpl \<Rightarrow> error_code \<Rightarrow> RequestImpl" where
  "on_retry_timer impl err =
     (if err = 0 then perform_request OnRetry impl else on_completed impl err)"

subsection \<open>The reactor\<close>

text \<open>
  What the reactor thread delivers to the object: the completion of the in-flight
  transfer (with the error code, the response code the handle then reports, and the next
  value of \<open>rand()\<close>), the firing of the timer, a header line, and a request for body
  bytes. A completion goes to the registered handler, once; the timer fires once; header
  and read callbacks come only while a transfer is in flight. \<open>Cancel()\<close> makes the
  engine complete the transfer with an error code.
\<close>

datatype event =
    TransferDone error_code int nat
  | TimerFired error_code
  | HeaderLine string size_t size_t
  | ReadBody size_t size_t

fun step :: "event \<Rightarrow> RequestImpl \<Rightarrow> RequestImpl option" where
  "step (TransferDone err code rnd) impl =
     (case easy_handler impl of
        None \<Rightarrow> None
      | Some OnCompleted \<Rightarrow>
          Some (on_completed (impl\<lparr>easy_handler := None, easy_response_code := code\<rparr>) err)
      | Some OnRetry \<Rightarrow>
          Some (on_retry (impl\<lparr>easy_handler := None, easy_response_code := code\<rparr>) err rnd))"
| "step (TimerFired err) impl =
     (if timer_pending impl then Some (on_retry_timer (impl\<lparr>timer_pending := False\<rparr>) err)
      else None)"
| "step (HeaderLine ptr sz nmemb) impl =
     (if easy_handler impl = None then None
      else snd (on_header ptr sz nmemb (Some impl)))"
| "step (ReadBody sz nmemb) impl =
     (if easy_handler impl = None \<or> \<not> easy_read_function impl then None
      else Some (snd (snd (PutMethodReadCallback sz nmemb impl))))"

fun run :: "event list \<Rightarrow> RequestImpl \<Rightarrow> RequestImpl option" where
  "run [] impl = Some impl"
| "run (ev # evs) impl = (case step ev impl of None \<Rightarrow> None | Some impl' \<Rightarrow> run evs impl')"

fun is_resolution :: "call \<Rightarrow> bool" where
  "is_resolution (Promise_set_value _) = True"
| "is_resolution (Promise_set_exception _) = True"
| "is_resolution _ = False"

definition resolutions :: "RequestImpl \<Rightarrow> nat" where
  "resolutions impl = length (filter is_resolution (calls impl))"

fun is_attempt :: "call \<Rightarrow> bool" where
  "is_attempt (Easy_async_perform _) = True"
| "is_attempt _ = False"

definition attempts :: "RequestImpl \<Rightarrow> nat" where
  "attempts impl = length (filter is_attempt (calls impl))"

definition callback_pending :: "RequestImpl \<Rightarrow> bool" where
  "callback_pending impl = (easy_handler impl \<noteq> None \<or> timer_pending impl)"

fun is_callback :: "event \<Rightarrow> bool" where
  "is_callback (TransferDone _ _ _) = True"
| "is_callback (TimerFired _) = True"
| "is_callback _ = False"

subsection \<open>The aggregate timeout\<close>

text \<open>
  \<open>complete_timeout\<close> computes in \<open>double\<close>. A finite binary64 value is a pair of a
  mantissa and an exponent, standing for \<open>mantissa * 2^exponent\<close> (\<open>dval\<close>); every
  arithmetic operation computes the exact result and rounds it to 53 significant bits, to
  nearest with ties to even, as IEEE 754 prescribes in the default rounding mode, each
  operation on its own (no fused multiply-add). Overflow
  to infinity and subnormal numbers are not modelled: the values that occur here, products
  and sums of 64-bit integers, 16-bit counts and the constant 1.1, are far from both.
\<close>

type_synonym double = "int \<times> int"

definition dval :: "double \<Rightarrow> rat" where
  "dval d = of_int (fst d) * power_int 2 (snd d)"

text \<open>
  \<open>round_half_even m k\<close>: the non-negative integer \<open>m\<close> divided by \<open>2^k\<close>, rounded to
  the nearest integer, a tie going to the even one. \<open>round53 m e\<close>: the value
  \<open>m * 2^e\<close> rounded to 53 significant bits.
\<close>

definition round_half_even :: "int \<Rightarrow> nat \<Rightarrow> int" where
  "round_half_even m k =
     (let q = m div 2 ^ k; r = m mod 2 ^ k
      in if 2 * r < 2 ^ k then q
         else if 2 ^ k < 2 * r then q + 1
         else if even q then q else q + 1)"

definition round53 :: "int \<Rightarrow> int \<Rightarrow> double" where
  "round53 m e =
     (let k = bitlen \<bar>m\<bar> - 53
      in if k \<le> 0 then (m, e) else (sgn m * round_half_even \<bar>m\<bar> (nat k), e + k))"

text \<open>
  The conversion of an integer to \<open>double\<close>, the product and the sum of two
  \<open>double\<close>s.
\<close>

definition double_of_int :: "int \<Rightarrow> double" where
  "double_of_int i = round53 i 0"

definition dmul :: "double \<Rightarrow> double \<Rightarrow> double" where
  "dmul a b = round53 (fst a * fst b) (snd a + snd b)"

definition dadd :: "double \<Rightarrow> double \<Rightarrow> double" where
  "dadd a b =
     (let e = min (snd a) (snd b)
      in round53 (fst a * 2 ^ nat (snd a - e) + fst b * 2 ^ nat (snd b - e)) e)"

text \<open>The literal \<open>1.1\<close>: the binary64 value nearest to 11/10.\<close>

definition d1_1 :: double where
  "d1_1 = (2476979795053773, - 51)"

text \<open>
  \<open>static_cast<long>\<close> of a \<open>double\<close>: the fractional part is discarded (truncation
  towards zero); a value outside the range of \<open>long\<close> is undefined behaviour, \<open>None\<close>.
\<close>

definition long_of_double :: "double \<Rightarrow> int option" where
  "long_of_double d =
     (let v = (if 0 \<le> snd d then fst d * 2 ^ nat (snd d)
               else sgn (fst d) * (\<bar>fst d\<bar> div 2 ^ nat (- snd d)))
      in if - (2 ^ 63) \<le> v \<and> v < 2 ^ 63 then Some v else None)"

text \<open>
  The loop of \<open>max_retry_time(short number)\<close>, from its counter \<open>i\<close> and the sum so
  far; the counter stays below \<open>number\<close> and the sum below \<open>2^25\<close>, so neither wraps.
\<close>

function max_retry_time_loop :: "int \<Rightarrow> int \<Rightarrow> int \<Rightarrow> int" where
  "max_retry_time_loop i number time_ms =
     (if i < number
      then max_retry_time_loop (i + 1) number
             (time_ms + kEBBaseTime * (shl1 (min (i - 1) kMaxRetryInTimeout) + 1))
      else time_ms)"
  by pat_completeness auto
termination
  by (relation "measure (\<lambda>(i, number, time_ms). nat (number - i))") auto

declare max_retry_time_loop.simps [simp del]

definition max_retry_time :: "short \<Rightarrow> int" where
  "max_retry_time number = max_retry_time_loop 1 (sint number) 0"

text \<open>
  \<open>complete_timeout(long request_timeout, int retries)\<close>: the product
  \<open>request_timeout * 1.1 * retries\<close> is evaluated from the left, in \<open>double\<close>; the
  call of \<open>max_retry_time\<close> converts \<open>retries\<close> to \<open>short\<close>.
\<close>

definition complete_timeout :: "int \<Rightarrow> cint \<Rightarrow> int option" where
  "complete_timeout request_timeout retries =
     long_of_double
       (dadd (dmul (dmul (double_of_int request_timeout) d1_1) (double_of_int (sint retries)))
             (double_of_int (max_retry_time (ucast retries))))"

text \<open>
  The timeout that \<open>Request::async_perform\<close> gives the \<open>ResponseFuture\<close>:
  \<open>complete_timeout(pimpl_->timeout(), pimpl_->retries())\<close>, the \<open>short\<close> count
  promoted to \<open>int\<close>.
\<close>

definition Request_async_perform_timeout :: "RequestImpl \<Rightarrow> int option" where
  "Request_async_perform_timeout impl =
     complete_timeout (timeout_ms_m impl) (scast (retry_retries impl))"

subsection \<open>One attempt's read callbacks\<close>

text \<open>
  The transfer engine asking for body bytes several times in a row, each time with its own
  \<open>size\<close> and \<open>nmemb\<close>: the return value and the bytes copied by each call, and the
  object after the last one.
\<close>

fun feed :: "(size_t \<times> size_t) list \<Rightarrow> RequestImpl \<Rightarrow> (nat \<times> string) list \<times> RequestImpl" where
  "feed [] impl = ([], impl)"
| "feed ((sz, nmemb) # reqs) impl =
     (case PutMethodReadCallback sz nmemb impl of
        (n, out, impl') \<Rightarrow>
          (case feed reqs impl' of (outs, impl'') \<Rightarrow> ((n, out) # outs, impl'')))"

text \<open>The capacity of the buffer of one call, \<open>nmemb * size\<close> in \<open>size_t\<close>.\<close>

definition capacity :: "size_t \<times> size_t \<Rightarrow> nat" where
  "capacity r = (case r of (sz, nmemb) \<Rightarrow> unat (nmemb * sz))"

text \<open>
  Where the next byte comes from and how many are left, a null cursor standing for the
  state before the first call; and the relation between cursor, rest and buffer that the
  callback keeps.
\<close>

definition put_offset :: "RequestImpl \<Rightarrow> nat" where
  "put_offset impl = (case put_method_cursor impl of None \<Rightarrow> 0 | Some c \<Rightarrow> c)"

definition put_remaining :: "RequestImpl \<Rightarrow> nat" where
  "put_remaining impl =
     (case put_method_cursor impl of
        None \<Rightarrow> length (put_method_data impl)
      | Some _ \<Rightarrow> put_method_rest_data_size impl)"

definition put_wf :: "RequestImpl \<Rightarrow> bool" where
  "put_wf impl \<longleftrightarrow> put_offset impl + put_remaining impl = length (put_method_data impl)"

subsection \<open>Invariants of the reactor\<close>

text \<open>
  At most one callback is outstanding, and the promise has been resolved exactly when
  none is.
\<close>

definition machine_inv :: "RequestImpl \<Rightarrow> bool" where
  "machine_inv st \<longleftrightarrow>
     (easy_handler st \<noteq> None \<longrightarrow> \<not> timer_pending st)
     \<and> resolutions st = (if callback_pending st then 0 else 1)"

text \<open>A bound on the callbacks that can still be delivered.\<close>

definition pending_measure :: "RequestImpl \<Rightarrow> nat" where
  "pending_measure st =
     (if easy_handler st \<noteq> None
      then 2 * nat (sint (retry_retries st) - sint (retry_current st)) + 1
      else if timer_pending st
      then 2 * nat (sint (retry_retries st) - sint (retry_current st)) + 2
      else 0)"

text \<open>
  What holds after the events \<open>evs\<close> of a request configured with \<open>retry(n, f)\<close>:
  the attempts submitted follow \<open>retry_current\<close>, and a timer is armed only right after a
  transfer that failed with \<open>on_fails\<close> set or answered with a status of at least 500.
\<close>

definition retry_inv :: "cint \<Rightarrow> bool \<Rightarrow> event list \<Rightarrow> RequestImpl \<Rightarrow> bool" where
  "retry_inv n f evs st \<longleftrightarrow>
     retry_retries st = ucast n \<and> retry_on_fails st = f
     \<and> (easy_handler st \<noteq> None \<longrightarrow> \<not> timer_pending st)
     \<and> 1 \<le> sint (retry_current st)
     \<and> sint (retry_current st) \<le> max 1 (sint (retry_retries st))
     \<and> (easy_handler st \<noteq> None \<longrightarrow> int (attempts st) = sint (retry_current st))
     \<and> (timer_pending st \<longrightarrow>
          int (attempts st) = sint (retry_current st) - 1
          \<and> evs \<noteq> []
          \<and> (\<exists>err code rnd. last evs = TransferDone err code rnd
                \<and> ((err \<noteq> 0 \<and> f) \<or> (err = 0 \<and> 500 \<le> code))))
     \<and> 1 \<le> attempts st \<and> int (attempts st) \<le> sint (retry_current st)"

section \<open>Properties\<close>

subsection \<open>The retry decision and the timer callback\<close>

lemmas machine_defs =
  on_retry_def on_completed_def on_retry_timer_def perform_request_def async_perform_def
  not_need_retry_def backoff_ms_def shl1_def log_call_def
  kLeastBadHttpCodeForEB_def kEBBaseTime_def kMaxRetryInTimeout_def
  Request_retry_def retry_def RequestImpl_new_def resolutions_def attempts_def
  callback_pending_def Let_def


text \<open>
  C2: \<open>on_retry\<close> finishes the request through \<open>on_completed\<close>, resolving the promise,
  exactly when (i) there is no error and the response code is below 500, or (ii) the
  attempts used have reached the configured count, or (iii) there is an error and
  \<open>on_fails\<close> is not set. Otherwise it resolves nothing, increments the attempts used and
  arms one single-shot timer with the backoff delay; when that timer fires without error the
  next attempt is submitted.
\<close>

theorem on_retry_finishes_iff:
  "(resolutions (on_retry holder err rnd) = resolutions holder + 1
      \<longleftrightarrow> ((err = 0 \<and> easy_response_code holder < 500)
           \<or> sint (retry_retries holder) \<le> sint (retry_current holder)
           \<or> (err \<noteq> 0 \<and> \<not> retry_on_fails holder)))
   \<and> (((err = 0 \<and> easy_response_code holder < 500)
           \<or> sint (retry_retries holder) \<le> sint (retry_current holder)
           \<or> (err \<noteq> 0 \<and> \<not> retry_on_fails holder))
        \<longrightarrow> on_retry holder err rnd =
              on_completed
                (log_call (if err \<noteq> 0 then Stats_FinishEc err
                           else Stats_FinishOk (easy_response_code holder))
                   (log_call Stats_StoreTimeToStart holder)) err
            \<and> timer_pending (on_retry holder err rnd) = timer_pending holder
            \<and> attempts (on_retry holder err rnd) = attempts holder)
   \<and> (\<not> ((err = 0 \<and> easy_response_code holder < 500)
           \<or> sint (retry_retries holder) \<le> sint (retry_current holder)
           \<or> (err \<noteq> 0 \<and> \<not> retry_on_fails holder))
        \<longrightarrow> resolutions (on_retry holder err rnd) = resolutions holder
            \<and> timer_pending (on_retry holder err rnd)
            \<and> calls (on_retry holder err rnd) =
                calls holder @
                  [Stats_StoreTimeToStart,
                   if err \<noteq> 0 then Stats_FinishEc err
                   else Stats_FinishOk (easy_response_code holder),
                   Timer_SingleshotAsync (backoff_ms (sint (retry_current holder)) rnd)]
            \<and> retry_current (on_retry holder err rnd) = retry_current holder + 1
            \<and> attempts (on_retry holder err rnd) = attempts holder
            \<and> attempts (on_retry_timer ((on_retry holder err rnd)\<lparr>timer_pending := False\<rparr>) 0)
                = attempts holder + 1)"
  by (simp add: on_retry_def on_completed_def on_retry_timer_def perform_request_def
      not_need_retry_def log_call_def resolutions_def attempts_def
      kLeastBadHttpCodeForEB_def Let_def)

theorem on_retry_finishes_iff_witness:
  "timer_pending (on_retry ((Request_retry 3 False RequestImpl_new)\<lparr>easy_response_code := 503\<rparr>) 0 7)
   \<and> resolutions (on_retry ((Request_retry 3 False RequestImpl_new)\<lparr>easy_response_code := 200\<rparr>) 0 7) = 1"
  using on_retry_finishes_iff [of "(Request_retry 3 False RequestImpl_new)\<lparr>easy_response_code := 503\<rparr>" 0 7]
    on_retry_finishes_iff [of "(Request_retry 3 False RequestImpl_new)\<lparr>easy_response_code := 200\<rparr>" 0 7]
  by (simp add: machine_defs)

text \<open>
  C9: a timer callback with an error finishes the request through \<open>on_completed\<close> with
  that error (the promise gets the exception) and submits nothing; a new attempt is
  submitted through \<open>perform_request\<close> exactly when the callback reports success.
\<close>

theorem on_retry_timer_outcome:
  "(err \<noteq> 0 \<longrightarrow>
       on_retry_timer impl err = on_completed impl err
     \<and> calls (on_retry_timer impl err) =
         calls impl @ [Stats_StoreTimeToStart, Stats_FinishEc err, Promise_set_exception err]
     \<and> resolutions (on_retry_timer impl err) = resolutions impl + 1
     \<and> attempts (on_retry_timer impl err) = attempts impl
     \<and> easy_handler (on_retry_timer impl err) = easy_handler impl
     \<and> timer_pending (on_retry_timer impl err) = timer_pending impl)
   \<and> (err = 0 \<longrightarrow>
       on_retry_timer impl err = perform_request OnRetry impl
     \<and> calls (on_retry_timer impl err) = calls impl @ [Easy_async_perform OnRetry]
     \<and> resolutions (on_retry_timer impl err) = resolutions impl
     \<and> attempts (on_retry_timer impl err) = attempts impl + 1
     \<and> easy_handler (on_retry_timer impl err) = Some OnRetry)
   \<and> (attempts (on_retry_timer impl err) = attempts impl + 1 \<longleftrightarrow> err = 0)"
  by (simp add: on_completed_def on_retry_timer_def perform_request_def
      log_call_def resolutions_def attempts_def Let_def)

theorem on_retry_timer_outcome_witness:
  "resolutions (on_retry_timer RequestImpl_new 110) = 1
   \<and> attempts (on_retry_timer RequestImpl_new 110) = 0
   \<and> attempts (on_retry_timer RequestImpl_new 0) = 1"
  using on_retry_timer_outcome [of 110 RequestImpl_new] on_retry_timer_outcome [of 0 RequestImpl_new]
  by (simp add: machine_defs)

subsection \<open>Executions of the state machine\<close>

lemma sint_short_succ:
  fixes c r :: short
  assumes "sint c < sint r"
  shows "sint (c + 1) = sint c + 1"
proof -
  have "sint r < 2 ^ 15" using sint_range_size [of r] by (simp add: word_size)
  moreover have "- (2 ^ 15) \<le> sint c" using sint_range_size [of c] by (simp add: word_size)
  ultimately have "signed_take_bit 15 (sint c + 1) = sint c + 1"
    using assms by (intro signed_take_bit_int_eq_self) auto
  then show ?thesis by (simp add: sint_word_add)
qed

lemma uint_eq_sint_nonneg:
  fixes n :: cint
  assumes "0 \<le> sint n"
  shows "uint n = sint n"
proof -
  have s: "sint n = signed_take_bit 31 (uint n)" by (simp add: sint_uint)
  have "uint n < 2 ^ 31"
  proof (rule ccontr)
    assume "\<not> uint n < 2 ^ 31"
    then have "signed_take_bit 31 (uint n) \<le> uint n - 2 ^ Suc 31"
      by (intro signed_take_bit_int_less_eq) simp
    moreover have "uint n < 2 ^ 32" using uint_bounded [of n] by simp
    ultimately show False using assms s by simp
  qed
  then have "signed_take_bit 31 (uint n) = uint n"
    by (intro signed_take_bit_int_eq_self) (simp_all add: order_trans [of _ 0])
  with s show ?thesis by simp
qed

lemma sint_short_le_int:
  fixes n :: cint
  assumes "1 \<le> sint n"
  shows "sint (ucast n :: short) \<le> sint n"
proof -
  have "sint (ucast n :: short) = signed_take_bit 15 (uint n)"
    by (simp add: signed_ucast_eq)
  also have "\<dots> \<le> uint n"
    by (simp add: signed_take_bit_int_less_eq_self_iff order_trans [of _ 0])
  also have "\<dots> = sint n" using assms by (intro uint_eq_sint_nonneg) simp
  finally show ?thesis .
qed

lemma run_snoc:
  "run (evs @ [ev]) impl = (case run evs impl of None \<Rightarrow> None | Some s \<Rightarrow> step ev s)"
  by (induction evs arbitrary: impl) (auto split: option.splits)

text \<open>What a header or read callback leaves alone.\<close>

lemma parse_header_frame:
  "\<exists>r. parse_header ptr impl = impl\<lparr>response_m := r\<rparr>"
  by (auto simp: parse_header_def Let_def split: option.splits intro: exI [of _ "response_m impl"])

lemma PutMethodReadCallback_frame:
  "\<exists>c r. snd (snd (PutMethodReadCallback sz nmemb impl)) =
     impl\<lparr>put_method_cursor := c, put_method_rest_data_size := r\<rparr>"
  by (cases "put_method_cursor impl") (auto simp: PutMethodReadCallback_def Let_def)

lemma on_completed_fields:
  "easy_handler (on_completed h err) = easy_handler h"
  "timer_pending (on_completed h err) = timer_pending h"
  "retry_retries (on_completed h err) = retry_retries h"
  "retry_current (on_completed h err) = retry_current h"
  "retry_on_fails (on_completed h err) = retry_on_fails h"
  "resolutions (on_completed h err) = resolutions h + 1"
  "attempts (on_completed h err) = attempts h"
  by (simp_all add: on_completed_def log_call_def resolutions_def attempts_def Let_def)

lemma perform_request_fields:
  "easy_handler (perform_request hnd h) = Some hnd"
  "timer_pending (perform_request hnd h) = timer_pending h"
  "retry_retries (perform_request hnd h) = retry_retries h"
  "retry_current (perform_request hnd h) = retry_current h"
  "retry_on_fails (perform_request hnd h) = retry_on_fails h"
  "resolutions (perform_request hnd h) = resolutions h"
  "attempts (perform_request hnd h) = attempts h + 1"
  by (simp_all add: perform_request_def log_call_def resolutions_def attempts_def)

lemma not_need_retry_log_call [simp]:
  "not_need_retry (log_call c h) err = not_need_retry h err"
  by (simp add: not_need_retry_def log_call_def)

lemma on_retry_finish:
  assumes "not_need_retry h err"
  shows "on_retry h err rnd =
           on_completed
             (log_call (if err \<noteq> 0 then Stats_FinishEc err
                        else Stats_FinishOk (easy_response_code h))
                (log_call Stats_StoreTimeToStart h)) err"
proof -
  have "easy_response_code (log_call Stats_StoreTimeToStart h) = easy_response_code h"
    by (simp add: log_call_def)
  with assms show ?thesis by (cases "err = 0") (simp_all add: on_retry_def Let_def)
qed

lemma on_retry_finish_fields:
  assumes "not_need_retry h err"
  shows "easy_handler (on_retry h err rnd) = easy_handler h"
    "timer_pending (on_retry h err rnd) = timer_pending h"
    "retry_retries (on_retry h err rnd) = retry_retries h"
    "retry_current (on_retry h err rnd) = retry_current h"
    "retry_on_fails (on_retry h err rnd) = retry_on_fails h"
    "resolutions (on_retry h err rnd) = resolutions h + 1"
    "attempts (on_retry h err rnd) = attempts h"
  by (simp_all add: on_retry_finish [OF assms] on_completed_fields)
    (simp_all add: log_call_def resolutions_def attempts_def)

lemma on_retry_again:
  assumes "\<not> not_need_retry h err"
  shows "on_retry h err rnd =
           h\<lparr>retry_current := retry_current h + 1, timer_pending := True,
             calls := calls h @
               [Stats_StoreTimeToStart,
                if err \<noteq> 0 then Stats_FinishEc err else Stats_FinishOk (easy_response_code h),
                Timer_SingleshotAsync (backoff_ms (sint (retry_current h)) rnd)]\<rparr>"
  using assms by (cases "err = 0") (simp_all add: on_retry_def Let_def, simp_all add: log_call_def)

lemma on_retry_again_fields:
  assumes "\<not> not_need_retry h err"
  shows "easy_handler (on_retry h err rnd) = easy_handler h"
    "timer_pending (on_retry h err rnd)"
    "retry_retries (on_retry h err rnd) = retry_retries h"
    "retry_current (on_retry h err rnd) = retry_current h + 1"
    "retry_on_fails (on_retry h err rnd) = retry_on_fails h"
    "resolutions (on_retry h err rnd) = resolutions h"
    "attempts (on_retry h err rnd) = attempts h"
  by (simp_all add: on_retry_again [OF assms] resolutions_def attempts_def)

lemma step_header_frame:
  assumes "step (HeaderLine ptr sz nmemb) st = Some st'"
  shows "easy_handler st \<noteq> None \<and> (\<exists>r. st' = st\<lparr>response_m := r\<rparr>)"
proof -
  from assms have h: "easy_handler st \<noteq> None"
    and e: "st' = parse_header (take (unat (sz * nmemb)) ptr) st"
    by (simp_all add: on_header_def Let_def split: if_splits)
  from e parse_header_frame [of "take (unat (sz * nmemb)) ptr" st] h show ?thesis
    by simp
qed

lemma step_read_frame:
  assumes "step (ReadBody sz nmemb) st = Some st'"
  shows "easy_handler st \<noteq> None
         \<and> (\<exists>c r. st' = st\<lparr>put_method_cursor := c, put_method_rest_data_size := r\<rparr>)"
proof -
  from assms have h: "easy_handler st \<noteq> None"
    and e: "st' = snd (snd (PutMethodReadCallback sz nmemb st))"
    by (simp_all split: if_splits)
  from e PutMethodReadCallback_frame [of sz nmemb st] h show ?thesis
    by simp
qed

lemma step_TransferDone_cases:
  assumes "step (TransferDone err code rnd) st = Some st'"
  obtains
    (completed) "easy_handler st = Some OnCompleted"
      "st' = on_completed (st\<lparr>easy_handler := None, easy_response_code := code\<rparr>) err"
  | (retry) "easy_handler st = Some OnRetry"
      "st' = on_retry (st\<lparr>easy_handler := None, easy_response_code := code\<rparr>) err rnd"
  using assms by (auto split: option.splits handler_type.splits)

lemma step_TimerFired_cases:
  assumes "step (TimerFired err) st = Some st'"
  obtains
    (again) "timer_pending st" "err = 0"
      "st' = perform_request OnRetry (st\<lparr>timer_pending := False\<rparr>)"
  | (failed) "timer_pending st" "err \<noteq> 0"
      "st' = on_completed (st\<lparr>timer_pending := False\<rparr>) err"
  using assms by (auto simp: on_retry_timer_def split: if_splits)

lemmas inv_defs = machine_inv_def pending_measure_def callback_pending_def

lemma step_machine_inv:
  assumes "machine_inv st" and "step ev st = Some st'"
  shows "machine_inv st'
         \<and> (if is_callback ev then pending_measure st' < pending_measure st
            else pending_measure st' = pending_measure st)"
proof (cases ev)
  case (TransferDone err code rnd)
  from assms(2) [unfolded TransferDone] show ?thesis
  proof (cases rule: step_TransferDone_cases)
    case completed
    with assms(1) TransferDone show ?thesis
      by (simp add: inv_defs on_completed_fields) (simp add: resolutions_def)
  next
    case retry
    let ?h = "st\<lparr>easy_handler := None, easy_response_code := code\<rparr>"
    show ?thesis
    proof (cases "not_need_retry ?h err")
      case True
      with assms(1) TransferDone retry show ?thesis
        by (simp add: inv_defs on_retry_finish_fields) (simp add: resolutions_def)
    next
      case False
      then have lt: "sint (retry_current st) < sint (retry_retries st)"
        by (auto simp: not_need_retry_def)
      from False assms(1) TransferDone retry show ?thesis
        using sint_short_succ [OF lt] lt
        by (simp add: inv_defs on_retry_again_fields) (simp add: resolutions_def)
    qed
  qed
next
  case (TimerFired err)
  from assms(2) [unfolded TimerFired] show ?thesis
  proof (cases rule: step_TimerFired_cases)
    case again
    with assms(1) TimerFired show ?thesis
      by (auto simp: inv_defs perform_request_fields) (simp_all add: resolutions_def)
  next
    case failed
    with assms(1) TimerFired show ?thesis
      by (auto simp: inv_defs on_completed_fields) (simp_all add: resolutions_def)
  qed
next
  case (HeaderLine ptr sz nmemb)
  with assms(2) step_header_frame [of ptr sz nmemb st st']
  obtain r where "st' = st\<lparr>response_m := r\<rparr>" by blast
  with assms(1) HeaderLine show ?thesis
    by (simp add: inv_defs resolutions_def)
next
  case (ReadBody sz nmemb)
  with assms(2) step_read_frame [of sz nmemb st st']
  obtain c r where "st' = st\<lparr>put_method_cursor := c, put_method_rest_data_size := r\<rparr>"
    by blast
  with assms(1) ReadBody show ?thesis
    by (simp add: inv_defs resolutions_def)
qed

lemma run_machine_inv:
  "machine_inv st \<Longrightarrow> run evs st = Some st' \<Longrightarrow>
     machine_inv st' \<and> length (filter is_callback evs) + pending_measure st' \<le> pending_measure st"
proof (induction evs arbitrary: st)
  case Nil
  then show ?case by simp
next
  case (Cons ev evs)
  from Cons.prems obtain s where s: "step ev st = Some s" and r: "run evs s = Some st'"
    by (auto split: option.splits)
  from step_machine_inv [OF Cons.prems(1) s]
  have i: "machine_inv s"
    and m: "if is_callback ev then pending_measure s < pending_measure st
            else pending_measure s = pending_measure st" by simp_all
  from Cons.IH [OF i r] m show ?case by (auto split: if_splits)
qed

lemma async_perform_machine_inv:
  assumes "resolutions st0 = 0" and "\<not> timer_pending st0"
  shows "machine_inv (async_perform st0)"
    and "pending_measure (async_perform st0) =
           2 * nat (sint (retry_retries st0) - sint (retry_current st0)) + 1"
  using assms
  by (auto simp: machine_inv_def pending_measure_def callback_pending_def resolutions_def
      async_perform_def perform_request_def log_call_def Let_def)

text \<open>
  C1: after \<open>async_perform\<close> on a request whose promise is unresolved, in every state
  that the reactor's events lead to, the promise has been resolved once if no callback is
  outstanding and not at all otherwise; while a callback is outstanding its delivery is
  possible, whatever the error code (success, transport error or cancellation); once none
  is outstanding nothing more is delivered; and the completions and timer firings of an
  execution are bounded by the attempts left. So every execution that delivers the
  outstanding callbacks ends with exactly one of \<open>set_value\<close> and \<open>set_exception\<close>.
\<close>

theorem promise_resolved_exactly_once:
  assumes "resolutions st0 = 0" and "\<not> timer_pending st0"
    and "run evs (async_perform st0) = Some st"
  shows "resolutions st = (if callback_pending st then 0 else 1)
         \<and> (callback_pending st \<longrightarrow>
              (\<forall>err code rnd. step (TransferDone err code rnd) st \<noteq> None)
              \<or> (\<forall>err. step (TimerFired err) st \<noteq> None))
         \<and> (\<not> callback_pending st \<longrightarrow> (\<forall>ev. step ev st = None))
         \<and> length (filter is_callback evs)
             \<le> 2 * nat (sint (retry_retries st0) - sint (retry_current st0)) + 1"
proof -
  from run_machine_inv [OF async_perform_machine_inv(1) [OF assms(1,2)] assms(3)]
  have i: "machine_inv st"
    and b: "length (filter is_callback evs) + pending_measure st
             \<le> pending_measure (async_perform st0)" by simp_all
  have 1: "resolutions st = (if callback_pending st then 0 else 1)"
    using i by (simp add: machine_inv_def)
  have 2: "callback_pending st \<longrightarrow>
              (\<forall>err code rnd. step (TransferDone err code rnd) st \<noteq> None)
              \<or> (\<forall>err. step (TimerFired err) st \<noteq> None)"
    by (auto simp: callback_pending_def split: option.splits handler_type.splits)
  have 3: "\<not> callback_pending st \<longrightarrow> (\<forall>ev. step ev st = None)"
  proof (intro impI allI)
    fix ev assume "\<not> callback_pending st"
    then show "step ev st = None"
      by (cases ev) (auto simp: callback_pending_def)
  qed
  have 4: "length (filter is_callback evs)
             \<le> 2 * nat (sint (retry_retries st0) - sint (retry_current st0)) + 1"
    using b async_perform_machine_inv(2) [OF assms(1,2)] by simp
  from 1 2 3 4 show ?thesis by blast
qed

theorem promise_resolved_exactly_once_witness:
  "\<exists>st. run [TransferDone 0 503 7, TimerFired 0, TransferDone 111 0 0, TimerFired 0,
              TransferDone 0 200 3]
          (async_perform (Request_retry 3 True RequestImpl_new)) = Some st
        \<and> resolutions st = 1 \<and> \<not> callback_pending st"
proof -
  let ?st0 = "Request_retry 3 True RequestImpl_new"
  let ?evs = "[TransferDone 0 503 7, TimerFired 0, TransferDone 111 0 0, TimerFired 0,
               TransferDone 0 200 3]"
  have r: "resolutions ?st0 = 0" by (simp add: machine_defs)
  have t: "\<not> timer_pending ?st0" by (simp add: machine_defs)
  have "run ?evs (async_perform ?st0) \<noteq> None
        \<and> \<not> callback_pending (the (run ?evs (async_perform ?st0)))"
    by (simp add: machine_defs)
  then obtain st where s: "run ?evs (async_perform ?st0) = Some st"
    and p: "\<not> callback_pending st" by auto
  from promise_resolved_exactly_once [OF r t s] p have "resolutions st = 1" by simp
  with s p show ?thesis by blast
qed

lemma counters_frame [simp]:
  "attempts (st\<lparr>easy_handler := h\<rparr>) = attempts st"
  "attempts (st\<lparr>easy_response_code := k\<rparr>) = attempts st"
  "attempts (st\<lparr>timer_pending := b\<rparr>) = attempts st"
  "attempts (st\<lparr>response_m := r\<rparr>) = attempts st"
  "attempts (st\<lparr>put_method_cursor := c\<rparr>) = attempts st"
  "attempts (st\<lparr>put_method_rest_data_size := m\<rparr>) = attempts st"
  "resolutions (st\<lparr>easy_handler := h\<rparr>) = resolutions st"
  "resolutions (st\<lparr>easy_response_code := k\<rparr>) = resolutions st"
  "resolutions (st\<lparr>timer_pending := b\<rparr>) = resolutions st"
  "resolutions (st\<lparr>response_m := r\<rparr>) = resolutions st"
  "resolutions (st\<lparr>put_method_cursor := c\<rparr>) = resolutions st"
  "resolutions (st\<lparr>put_method_rest_data_size := m\<rparr>) = resolutions st"
  by (simp_all add: attempts_def resolutions_def)

lemma step_current_mono:
  assumes "step ev st = Some st'"
  shows "sint (retry_current st) \<le> sint (retry_current st')"
proof (cases ev)
  case (TransferDone err code rnd)
  from assms [unfolded TransferDone] show ?thesis
  proof (cases rule: step_TransferDone_cases)
    case completed
    then show ?thesis by (simp add: on_completed_fields)
  next
    case retry
    let ?h = "st\<lparr>easy_handler := None, easy_response_code := code\<rparr>"
    show ?thesis
    proof (cases "not_need_retry ?h err")
      case True
      with retry show ?thesis by (simp add: on_retry_finish_fields)
    next
      case False
      then have lt: "sint (retry_current st) < sint (retry_retries st)"
        by (auto simp: not_need_retry_def)
      from False retry sint_short_succ [OF lt] show ?thesis
        by (simp add: on_retry_again_fields)
    qed
  qed
next
  case (TimerFired err)
  from assms [unfolded TimerFired] show ?thesis
    by (cases rule: step_TimerFired_cases)
      (simp_all add: perform_request_fields on_completed_fields)
next
  case (HeaderLine ptr sz nmemb)
  with assms step_header_frame [of ptr sz nmemb st st']
  obtain r where "st' = st\<lparr>response_m := r\<rparr>" by blast
  then show ?thesis by simp
next
  case (ReadBody sz nmemb)
  with assms step_read_frame [of sz nmemb st st']
  obtain c r where "st' = st\<lparr>put_method_cursor := c, put_method_rest_data_size := r\<rparr>"
    by blast
  then show ?thesis by simp
qed

lemma step_retry_inv:
  assumes "retry_inv n f evs st" and "step ev st = Some st'"
  shows "retry_inv n f (evs @ [ev]) st'"
proof (cases ev)
  case (TransferDone err code rnd)
  from assms(2) [unfolded TransferDone] show ?thesis
  proof (cases rule: step_TransferDone_cases)
    case completed
    with assms(1) show ?thesis
      by (auto simp: retry_inv_def on_completed_fields)
  next
    case retry
    let ?h = "st\<lparr>easy_handler := None, easy_response_code := code\<rparr>"
    show ?thesis
    proof (cases "not_need_retry ?h err")
      case True
      with assms(1) retry show ?thesis
        by (auto simp: retry_inv_def on_retry_finish_fields)
    next
      case False
      then have lt: "sint (retry_current st) < sint (retry_retries st)"
        and why: "(err \<noteq> 0 \<and> retry_on_fails st) \<or> (err = 0 \<and> 500 \<le> code)"
        by (auto simp: not_need_retry_def kLeastBadHttpCodeForEB_def)
      from False assms(1) retry TransferDone sint_short_succ [OF lt] lt why show ?thesis
        by (auto simp: retry_inv_def on_retry_again_fields)
    qed
  qed
next
  case (TimerFired err)
  from assms(2) [unfolded TimerFired] show ?thesis
  proof (cases rule: step_TimerFired_cases)
    case again
    with assms(1) show ?thesis
      by (auto simp: retry_inv_def perform_request_fields)
  next
    case failed
    with assms(1) show ?thesis
      by (auto simp: retry_inv_def on_completed_fields)
  qed
next
  case (HeaderLine ptr sz nmemb)
  with assms(2) step_header_frame [of ptr sz nmemb st st']
  obtain r where "easy_handler st \<noteq> None" "st' = st\<lparr>response_m := r\<rparr>" by blast
  with assms(1) show ?thesis
    by (auto simp: retry_inv_def)
next
  case (ReadBody sz nmemb)
  with assms(2) step_read_frame [of sz nmemb st st']
  obtain c r where "easy_handler st \<noteq> None"
    "st' = st\<lparr>put_method_cursor := c, put_method_rest_data_size := r\<rparr>"
    by blast
  with assms(1) show ?thesis
    by (auto simp: retry_inv_def)
qed

lemma run_retry_inv:
  assumes "retry_inv n f [] s0"
  shows "run evs s0 = Some st \<Longrightarrow> retry_inv n f evs st"
proof (induction evs arbitrary: st rule: rev_induct)
  case Nil
  with assms show ?case by simp
next
  case (snoc ev evs)
  from snoc.prems obtain s where s: "run evs s0 = Some s" and t: "step ev s = Some st"
    by (auto simp: run_snoc split: option.splits)
  from step_retry_inv [OF snoc.IH [OF s] t] show ?case .
qed

lemma async_perform_retry_inv:
  assumes "1 \<le> sint n" and "\<not> timer_pending st0" and "attempts st0 = 0"
  shows "retry_inv n f [] (async_perform (Request_retry n f st0))"
  using assms
  by (auto simp: retry_inv_def async_perform_def Request_retry_def retry_def
      perform_request_def log_call_def attempts_def Let_def)

text \<open>
  C3: for a request configured with \<open>retry(n, f)\<close>, \<open>n \<ge> 1\<close>, in every state reached
  after \<open>async_perform\<close> the attempts used are at least 1 and at most \<open>n\<close>, and at most
  the stored count whenever that is at least 1 (the field \<open>retries\<close> holds the low 16 bits
  of \<open>n\<close>, which is \<open>n\<close> itself below \<open>2^15\<close>), no event decreases them, between 1 and \<open>n\<close> attempts have been submitted, and an event
  submits a further attempt only if it is the successful firing of the timer right after a
  transfer that ended with an error while \<open>on_fails\<close> is set or with a status of at
  least 500.
\<close>

theorem retry_bound:
  assumes "1 \<le> sint n" and "\<not> timer_pending st0" and "attempts st0 = 0"
    and "run evs (async_perform (Request_retry n f st0)) = Some st"
  shows "1 \<le> sint (retry_current st) \<and> sint (retry_current st) \<le> sint n
         \<and> sint (retry_current st) \<le> max 1 (sint (retry_retries st))
         \<and> (sint n < 2 ^ 15 \<longrightarrow> sint (retry_retries st) = sint n)
         \<and> (\<forall>ev st'. step ev st = Some st' \<longrightarrow>
               sint (retry_current st) \<le> sint (retry_current st'))
         \<and> 1 \<le> attempts st \<and> int (attempts st) \<le> sint n
         \<and> (\<forall>ev st'. step ev st = Some st' \<longrightarrow> attempts st < attempts st' \<longrightarrow>
               ev = TimerFired 0 \<and> evs \<noteq> []
               \<and> (\<exists>err code rnd. last evs = TransferDone err code rnd
                     \<and> ((err \<noteq> 0 \<and> f) \<or> (err = 0 \<and> 500 \<le> code))))"
proof -
  have i: "retry_inv n f evs st"
    by (rule run_retry_inv [OF async_perform_retry_inv [OF assms(1,2,3)] assms(4)])
  have le: "sint (ucast n :: short) \<le> sint n" by (rule sint_short_le_int [OF assms(1)])
  have 1: "1 \<le> sint (retry_current st)" using i by (auto simp: retry_inv_def)
  have 2: "sint (retry_current st) \<le> sint n"
  proof -
    from i have "sint (retry_current st) \<le> max 1 (sint (ucast n :: short))"
      by (auto simp: retry_inv_def)
    with le assms(1) show ?thesis by simp
  qed
  have 7: "sint (retry_current st) \<le> max 1 (sint (retry_retries st))"
    using i by (auto simp: retry_inv_def)
  have 3: "sint n < 2 ^ 15 \<longrightarrow> sint (retry_retries st) = sint n"
  proof
    assume b: "sint n < 2 ^ 15"
    have "sint (ucast n :: short) = signed_take_bit 15 (uint n)"
      by (simp add: signed_ucast_eq)
    also have "uint n = sint n" using assms(1) by (intro uint_eq_sint_nonneg) simp
    also have "signed_take_bit 15 (sint n) = sint n"
      using assms(1) b by (intro signed_take_bit_int_eq_self) simp_all
    finally show "sint (retry_retries st) = sint n" using i by (auto simp: retry_inv_def)
  qed
  have 4: "\<forall>ev st'. step ev st = Some st' \<longrightarrow>
               sint (retry_current st) \<le> sint (retry_current st')"
    using step_current_mono by blast
  have 5: "1 \<le> attempts st \<and> int (attempts st) \<le> sint n"
    using i 2 by (auto simp: retry_inv_def)
  have 6: "\<forall>ev st'. step ev st = Some st' \<longrightarrow> attempts st < attempts st' \<longrightarrow>
               ev = TimerFired 0 \<and> evs \<noteq> []
               \<and> (\<exists>err code rnd. last evs = TransferDone err code rnd
                     \<and> ((err \<noteq> 0 \<and> f) \<or> (err = 0 \<and> 500 \<le> code)))"
  proof (intro allI impI)
    fix ev st' assume s: "step ev st = Some st'" and a: "attempts st < attempts st'"
    show "ev = TimerFired 0 \<and> evs \<noteq> []
               \<and> (\<exists>err code rnd. last evs = TransferDone err code rnd
                     \<and> ((err \<noteq> 0 \<and> f) \<or> (err = 0 \<and> 500 \<le> code)))"
    proof (cases ev)
      case (TransferDone err code rnd)
      from s [unfolded TransferDone] have "attempts st' = attempts st"
      proof (cases rule: step_TransferDone_cases)
        case completed
        then show ?thesis by (simp add: on_completed_fields)
      next
        case retry
        then show ?thesis
          by (cases "not_need_retry (st\<lparr>easy_handler := None, easy_response_code := code\<rparr>) err")
            (simp_all add: on_retry_finish_fields on_retry_again_fields)
      qed
      with a show ?thesis by simp
    next
      case (TimerFired err)
      from s [unfolded TimerFired] show ?thesis
      proof (cases rule: step_TimerFired_cases)
        case again
        with i TimerFired show ?thesis by (auto simp: retry_inv_def)
      next
        case failed
        then have "attempts st' = attempts st"
          by (simp add: on_completed_fields)
        with a show ?thesis by simp
      qed
    next
      case (HeaderLine ptr sz nmemb)
      with s step_header_frame [of ptr sz nmemb st st']
      obtain r where "st' = st\<lparr>response_m := r\<rparr>" by blast
      with a show ?thesis by simp
    next
      case (ReadBody sz nmemb)
      with s step_read_frame [of sz nmemb st st']
      obtain c r where "st' = st\<lparr>put_method_cursor := c, put_method_rest_data_size := r\<rparr>"
        by blast
      with a show ?thesis by simp
    qed
  qed
  from 1 2 7 3 4 5 6 show ?thesis by blast
qed

theorem retry_bound_witness:
  "(\<exists>st. run [TransferDone 0 503 7, TimerFired 0, TransferDone 0 200 0]
            (async_perform (Request_retry 3 False RequestImpl_new)) = Some st
         \<and> 1 \<le> attempts st \<and> int (attempts st) \<le> 3 \<and> sint (retry_current st) \<le> 3)
   \<and> (\<exists>st. run [TransferDone 0 503 7]
            (async_perform (Request_retry 65536 True RequestImpl_new)) = Some st
         \<and> 1 \<le> attempts st \<and> int (attempts st) \<le> 65536 \<and> \<not> callback_pending st)"
proof -
  let ?a = "Request_retry 3 False RequestImpl_new"
  let ?e = "[TransferDone 0 503 7, TimerFired 0, TransferDone 0 200 0]"
  let ?b = "Request_retry 65536 True RequestImpl_new"
  have n: "1 \<le> sint (3 :: cint)" "1 \<le> sint (65536 :: cint)" by simp_all
  have t: "\<not> timer_pending RequestImpl_new" "attempts RequestImpl_new = 0"
    by (simp_all add: machine_defs)
  have "run ?e (async_perform ?a) \<noteq> None" by (simp add: machine_defs)
  then obtain st where s: "run ?e (async_perform ?a) = Some st" by auto
  have "run [TransferDone 0 503 7] (async_perform ?b) \<noteq> None
        \<and> \<not> callback_pending (the (run [TransferDone 0 503 7] (async_perform ?b)))"
    by (simp add: machine_defs)
  then obtain st' where s': "run [TransferDone 0 503 7] (async_perform ?b) = Some st'"
    and p: "\<not> callback_pending st'" by auto
  from retry_bound [OF n(1) t s] retry_bound [OF n(2) t s'] s s' p
  show ?thesis by simp
qed

subsection \<open>The backoff delay\<close>

text \<open>
  The values below \<open>m * q\<close> fall into the \<open>m\<close> residue classes in equal numbers.
\<close>

lemma mod_class_card:
  fixes m q u :: nat
  assumes "u < m"
  shows "card {r. r < m * q \<and> r mod m = u} = q"
proof -
  have "{r. r < m * q \<and> r mod m = u} = (\<lambda>j. u + m * j) ` {0..<q}"
  proof (intro set_eqI iffI)
    fix r assume "r \<in> {r. r < m * q \<and> r mod m = u}"
    then have lt: "r < m * q" and md: "r mod m = u" by simp_all
    from lt have "r div m < q"
      using assms by (simp add: less_mult_imp_div_less mult.commute)
    moreover have "r = u + m * (r div m)" using md by (metis add.commute mult_div_mod_eq)
    ultimately show "r \<in> (\<lambda>j. u + m * j) ` {0..<q}" by auto
  next
    fix r assume "r \<in> (\<lambda>j. u + m * j) ` {0..<q}"
    then obtain j where j: "j < q" and r: "r = u + m * j" by auto
    from j have "m * (j + 1) \<le> m * q" by (intro mult_le_mono2) simp
    with assms have "u + m * j < m * q" by simp
    moreover have "(u + m * j) mod m = u" using assms by simp
    ultimately show "r \<in> {r. r < m * q \<and> r mod m = u}" using r by simp
  qed
  moreover have "inj_on (\<lambda>j. u + m * j) {0..<q}"
    using assms by (intro inj_onI) simp
  ultimately show ?thesis by (simp add: card_image)
qed

text \<open>
  C4: for an attempt index \<open>i \<ge> 1\<close> the delay is 25 ms times \<open>u + 1\<close> where
  \<open>u\<close> is \<open>rand() mod 2^min(i-1, 5)\<close>. This \<open>u\<close> lies in the range from 0 to
  \<open>2^min(i-1, 5) - 1\<close>, both ends included, and every value of that range is produced by
  some value of \<open>rand()\<close>. When \<open>RAND_MAX + 1\<close> is a multiple of \<open>2^min(i-1, 5)\<close>,
  each delay of the range comes from the same number of the values \<open>0 .. RAND_MAX\<close> of
  \<open>rand()\<close>, namely \<open>(RAND_MAX + 1) / 2^min(i-1, 5)\<close> of them: \<open>u\<close> is uniformly
  distributed over the range if \<open>rand()\<close> is over its own. \<open>RAND_MAX\<close> belongs to the
  C library and is a parameter here.
\<close>

theorem backoff_range:
  assumes "1 \<le> i"
  shows "backoff_ms i rnd = 25 * (int rnd mod 2 ^ nat (min (i - 1) 5) + 1)
         \<and> 0 \<le> int rnd mod 2 ^ nat (min (i - 1) 5)
         \<and> int rnd mod 2 ^ nat (min (i - 1) 5) \<le> 2 ^ nat (min (i - 1) 5) - 1
         \<and> (\<forall>u. 0 \<le> u \<and> u \<le> 2 ^ nat (min (i - 1) 5) - 1 \<longrightarrow>
               backoff_ms i (nat u) = 25 * (u + 1))
         \<and> (2 ^ nat (min (i - 1) 5) dvd RAND_MAX + 1 \<longrightarrow>
              (\<forall>u. u < 2 ^ nat (min (i - 1) 5) \<longrightarrow>
                 card {r. r \<le> RAND_MAX \<and> backoff_ms i r = 25 * (int u + 1)}
                   = (RAND_MAX + 1) div 2 ^ nat (min (i - 1) 5)))"
proof -
  define k where "k = nat (min (i - 1) 5)"
  have b: "backoff_ms i r = 25 * (int r mod 2 ^ k + 1)" for r
    by (simp add: backoff_ms_def shl1_def kEBBaseTime_def kMaxRetryInTimeout_def k_def)
  have 1: "0 \<le> int rnd mod 2 ^ k" "int rnd mod 2 ^ k \<le> 2 ^ k - 1"
  proof -
    show "0 \<le> int rnd mod 2 ^ k" by simp
    have "int rnd mod 2 ^ k < 2 ^ k" by simp
    then show "int rnd mod 2 ^ k \<le> 2 ^ k - 1" by linarith
  qed
  have 2: "\<forall>u. 0 \<le> u \<and> u \<le> 2 ^ k - 1 \<longrightarrow> backoff_ms i (nat u) = 25 * (u + 1)"
    by (simp add: b)
  have 3: "2 ^ k dvd RAND_MAX + 1 \<longrightarrow>
              (\<forall>u. u < 2 ^ k \<longrightarrow>
                 card {r. r \<le> RAND_MAX \<and> backoff_ms i r = 25 * (int u + 1)}
                   = (RAND_MAX + 1) div 2 ^ k)"
  proof (intro impI allI)
    fix u :: nat
    assume d: "2 ^ k dvd RAND_MAX + 1" and u: "u < 2 ^ k"
    from d obtain q where q: "RAND_MAX + 1 = 2 ^ k * q" by (auto elim: dvdE)
    have e: "(backoff_ms i r = 25 * (int u + 1)) = (r mod 2 ^ k = u)" for r
    proof -
      have "int r mod 2 ^ k = int (r mod 2 ^ k)" by (simp add: zmod_int)
      then show ?thesis unfolding b by simp
    qed
    have "{r. r \<le> RAND_MAX \<and> backoff_ms i r = 25 * (int u + 1)}
          = {r. r < 2 ^ k * q \<and> r mod 2 ^ k = u}"
      unfolding e q [symmetric] by auto
    then have "card {r. r \<le> RAND_MAX \<and> backoff_ms i r = 25 * (int u + 1)} = q"
      using mod_class_card [OF u, of q] by simp
    also have "q = (RAND_MAX + 1) div 2 ^ k" unfolding q by simp
    finally show "card {r. r \<le> RAND_MAX \<and> backoff_ms i r = 25 * (int u + 1)}
                   = (RAND_MAX + 1) div 2 ^ k" .
  qed
  from b [of rnd] 1 2 3 show ?thesis unfolding k_def by blast
qed

theorem backoff_range_witness:
  "(1::int) \<le> 3 \<and> backoff_ms 3 7 = 100 \<and> backoff_ms 3 4 = 25 \<and> backoff_ms 3 (nat 2) = 75
   \<and> (2::nat) ^ nat (min (3 - 1) 5) dvd 32767 + 1
   \<and> card {r. r \<le> 32767 \<and> backoff_ms 3 r = 25 * (int 2 + 1)} = 8192"
proof -
  have one: "(1::int) \<le> 3" by simp
  have d: "(2::nat) ^ nat (min (3 - 1) 5) dvd 32767 + 1" by simp
  have u: "(2::nat) < 2 ^ nat (min (3 - 1) 5)" by simp
  from backoff_range [OF one, of 7 32767] d u
  have "card {r. r \<le> 32767 \<and> backoff_ms 3 r = 25 * (int 2 + 1)}
        = (32767 + 1) div 2 ^ nat (min (3 - 1) 5)" by blast
  then have c: "card {r. r \<le> 32767 \<and> backoff_ms 3 r = 25 * (int 2 + 1)} = 8192" by simp
  have v: "backoff_ms 3 7 = 100" "backoff_ms 3 4 = 25" "backoff_ms 3 (nat 2) = 75"
    using backoff_range [OF one, of 7 32767] backoff_range [OF one, of 4 32767]
    by (simp_all add: backoff_ms_def shl1_def kEBBaseTime_def kMaxRetryInTimeout_def)
  from one v d c show ?thesis by blast
qed

text \<open>
  The upper end is not reached: at \<open>i = 1\<close> the value \<open>u = 2^min(i-1, 5) = 1\<close> would be a
  delay of 50 ms, which no value of \<open>rand()\<close> gives. The delay before the second attempt
  is always 25 ms.
\<close>

theorem backoff_range_counterexample:
  "\<not> (\<exists>rnd. backoff_ms 1 rnd = 25 * (2 ^ nat (min (1 - 1) 5) + 1))"
  by (simp add: backoff_ms_def shl1_def kEBBaseTime_def kMaxRetryInTimeout_def)

subsection \<open>The PUT body feeder\<close>

text \<open>
  C6: a PUT of the body \<open>ab\<close> with \<open>retry(2, false)\<close>. The first attempt reads the two
  bytes and the server answers 503; the timer fires and the second attempt is in flight.
  The cursor is still at offset 2 with nothing remaining, and the first read callback of the
  second attempt returns 0 bytes: nothing on the retry path resets the cursor.
\<close>

theorem put_cursor_kept_on_retry:
  "map_option
     (\<lambda>st. (easy_handler st, attempts st, put_method_cursor st, put_method_rest_data_size st,
            fst (PutMethodReadCallback 1 16 st), fst (snd (PutMethodReadCallback 1 16 st))))
     (run [ReadBody 1 16, TransferDone 0 503 0, TimerFired 0]
        (async_perform (Request_retry 2 False (Request_put ''ab'' RequestImpl_new))))
   = Some (Some OnRetry, 2, Some 2, 0, 0, [])"
  by (simp add: machine_defs Request_put_def SetPutMethodData_def PutMethodReadCallback_def)

lemma PutMethodReadCallback_call:
  assumes "put_wf impl"
  obtains impl' where
    "PutMethodReadCallback sz nmemb impl =
       (min (put_remaining impl) (unat (nmemb * sz)),
        take (min (put_remaining impl) (unat (nmemb * sz)))
          (drop (put_offset impl) (put_method_data impl)),
        impl')"
    "put_wf impl'" "put_method_data impl' = put_method_data impl"
    "put_offset impl' = put_offset impl + min (put_remaining impl) (unat (nmemb * sz))"
    "put_remaining impl' = put_remaining impl - unat (nmemb * sz)"
  using assms
  by (cases "put_method_cursor impl")
    (auto simp: PutMethodReadCallback_def put_wf_def put_offset_def put_remaining_def Let_def)

lemma feed_outputs:
  assumes "put_wf impl"
  shows "put_wf (snd (feed reqs impl))
       \<and> put_method_data (snd (feed reqs impl)) = put_method_data impl
       \<and> put_offset (snd (feed reqs impl))
           = put_offset impl + min (put_remaining impl) (sum_list (map capacity reqs))
       \<and> put_remaining (snd (feed reqs impl))
           = put_remaining impl - sum_list (map capacity reqs)
       \<and> concat (map snd (fst (feed reqs impl)))
           = take (min (put_remaining impl) (sum_list (map capacity reqs)))
               (drop (put_offset impl) (put_method_data impl))"
  using assms
proof (induction reqs arbitrary: impl)
  case Nil
  then show ?case by simp
next
  case (Cons r reqs)
  obtain sz nmemb where r: "r = (sz, nmemb)" by (cases r)
  from Cons.prems obtain impl' where
    c: "PutMethodReadCallback sz nmemb impl =
       (min (put_remaining impl) (unat (nmemb * sz)),
        take (min (put_remaining impl) (unat (nmemb * sz)))
          (drop (put_offset impl) (put_method_data impl)),
        impl')"
    and w: "put_wf impl'" and d: "put_method_data impl' = put_method_data impl"
    and o: "put_offset impl' = put_offset impl + min (put_remaining impl) (unat (nmemb * sz))"
    and m: "put_remaining impl' = put_remaining impl - unat (nmemb * sz)"
    by (rule PutMethodReadCallback_call)
  let ?n = "min (put_remaining impl) (capacity r)"
  let ?s = "sum_list (map capacity reqs)"
  have cap: "unat (nmemb * sz) = capacity r" by (simp add: r capacity_def)
  have f: "feed (r # reqs) impl =
      ((?n, take ?n (drop (put_offset impl) (put_method_data impl))) # fst (feed reqs impl'),
       snd (feed reqs impl'))"
    using c by (simp add: r capacity_def split: prod.splits)
  from Cons.IH [OF w] have ih:
    "put_wf (snd (feed reqs impl'))"
    "put_method_data (snd (feed reqs impl')) = put_method_data impl"
    "put_offset (snd (feed reqs impl')) = put_offset impl + ?n + min (put_remaining impl - capacity r) ?s"
    "put_remaining (snd (feed reqs impl')) = put_remaining impl - capacity r - ?s"
    "concat (map snd (fst (feed reqs impl')))
       = take (min (put_remaining impl - capacity r) ?s)
           (drop (put_offset impl + ?n) (put_method_data impl))"
    by (simp_all add: d o m cap)
  have ar: "?n + min (put_remaining impl - capacity r) ?s
          = min (put_remaining impl) (capacity r + ?s)" by auto
  have t: "take ?n (drop (put_offset impl) (put_method_data impl))
           @ take (min (put_remaining impl - capacity r) ?s)
               (drop (put_offset impl + ?n) (put_method_data impl))
         = take (min (put_remaining impl) (capacity r + ?s))
             (drop (put_offset impl) (put_method_data impl))"
  proof -
    have "drop (put_offset impl + ?n) (put_method_data impl)
          = drop ?n (drop (put_offset impl) (put_method_data impl))"
      by (simp add: add.commute)
    with ar show ?thesis by (metis take_add)
  qed
  have 1: "put_wf (snd (feed (r # reqs) impl))" using ih(1) by (simp add: f)
  have 2: "put_method_data (snd (feed (r # reqs) impl)) = put_method_data impl"
    using ih(2) by (simp add: f)
  have 3: "put_offset (snd (feed (r # reqs) impl))
           = put_offset impl + min (put_remaining impl) (sum_list (map capacity (r # reqs)))"
    using ih(3) ar by (simp add: f)
  have 4: "put_remaining (snd (feed (r # reqs) impl))
           = put_remaining impl - sum_list (map capacity (r # reqs))"
    using ih(4) by (simp add: f)
  have 5: "concat (map snd (fst (feed (r # reqs) impl)))
           = take (min (put_remaining impl) (sum_list (map capacity (r # reqs))))
               (drop (put_offset impl) (put_method_data impl))"
    using ih(5) t by (simp add: f)
  from 1 2 3 4 5 show ?case by blast
qed

lemma feed_drained:
  assumes "put_wf impl" and "put_remaining impl = 0"
  shows "\<forall>x \<in> set (fst (feed later impl)). x = (0, [])"
  using assms
proof (induction later arbitrary: impl)
  case Nil
  then show ?case by simp
next
  case (Cons r later)
  obtain sz nmemb where r: "r = (sz, nmemb)" by (cases r)
  from Cons.prems(1) obtain impl' where
    c: "PutMethodReadCallback sz nmemb impl =
       (min (put_remaining impl) (unat (nmemb * sz)),
        take (min (put_remaining impl) (unat (nmemb * sz)))
          (drop (put_offset impl) (put_method_data impl)),
        impl')"
    and w: "put_wf impl'"
    and m: "put_remaining impl' = put_remaining impl - unat (nmemb * sz)"
    by (rule PutMethodReadCallback_call)
  from m Cons.prems(2) have z: "put_remaining impl' = 0" by simp
  from Cons.IH [OF w z] c Cons.prems(2) show ?case
    by (simp add: r split: prod.splits)
qed

lemma SetPutMethodData_wf:
  "put_wf (SetPutMethodData data impl)"
  "put_method_data (SetPutMethodData data impl) = data"
  "put_offset (SetPutMethodData data impl) = 0"
  "put_remaining (SetPutMethodData data impl) = length data"
  by (simp_all add: SetPutMethodData_def put_wf_def put_offset_def put_remaining_def)

text \<open>
  The first attempt, the one that starts from the state \<open>SetPutMethodData\<close> leaves: after
  any calls \<open>pre\<close> already made, a call of \<open>PutMethodReadCallback\<close> returns the smaller
  of the bytes remaining and the capacity of its buffer, and copies exactly that many bytes
  of the payload, starting where the previous calls stopped. When the capacities of a
  sequence of calls add up to at least the size of the payload, the bytes copied, in order,
  are the payload, and every later call returns 0 and copies nothing.
\<close>

theorem put_body_complete:
  "(fst (PutMethodReadCallback sz nmemb (snd (feed pre (SetPutMethodData data st0))))
      = min (length data - length (concat (map snd (fst (feed pre (SetPutMethodData data st0))))))
          (unat (nmemb * sz))
    \<and> fst (snd (PutMethodReadCallback sz nmemb (snd (feed pre (SetPutMethodData data st0)))))
      = take (fst (PutMethodReadCallback sz nmemb (snd (feed pre (SetPutMethodData data st0)))))
          (drop (length (concat (map snd (fst (feed pre (SetPutMethodData data st0)))))) data))
   \<and> (length data \<le> sum_list (map capacity reqs) \<longrightarrow>
        concat (map snd (fst (feed reqs (SetPutMethodData data st0)))) = data
        \<and> (\<forall>x \<in> set (fst (feed later (snd (feed reqs (SetPutMethodData data st0))))).
              x = (0, [])))"
proof -
  let ?init = "SetPutMethodData data st0"
  note i = SetPutMethodData_wf [of data st0]
  note p = feed_outputs [OF i(1), of pre, unfolded i]
  let ?st = "snd (feed pre ?init)"
  let ?sent = "length (concat (map snd (fst (feed pre ?init))))"
  have sent: "?sent = min (length data) (sum_list (map capacity pre))"
    using p by simp
  from p have w: "put_wf ?st" by simp
  from w obtain impl' where
    c: "PutMethodReadCallback sz nmemb ?st =
       (min (put_remaining ?st) (unat (nmemb * sz)),
        take (min (put_remaining ?st) (unat (nmemb * sz)))
          (drop (put_offset ?st) (put_method_data ?st)),
        impl')"
    by (rule PutMethodReadCallback_call)
  have rem: "put_remaining ?st = length data - ?sent" using p sent by simp
  have off: "put_offset ?st = ?sent" using p sent by simp
  have dat: "put_method_data ?st = data" using p by simp
  have 1: "fst (PutMethodReadCallback sz nmemb ?st)
             = min (length data - ?sent) (unat (nmemb * sz))
           \<and> fst (snd (PutMethodReadCallback sz nmemb ?st))
             = take (fst (PutMethodReadCallback sz nmemb ?st)) (drop ?sent data)"
    unfolding c using rem off dat by simp
  have 2: "length data \<le> sum_list (map capacity reqs) \<longrightarrow>
        concat (map snd (fst (feed reqs ?init))) = data
        \<and> (\<forall>x \<in> set (fst (feed later (snd (feed reqs ?init)))). x = (0, []))"
  proof
    assume le: "length data \<le> sum_list (map capacity reqs)"
    note q = feed_outputs [OF i(1), of reqs, unfolded i]
    from q le have a: "concat (map snd (fst (feed reqs ?init))) = data" by simp
    from q le have "put_wf (snd (feed reqs ?init))" "put_remaining (snd (feed reqs ?init)) = 0"
      by simp_all
    from feed_drained [OF this] a
    show "concat (map snd (fst (feed reqs ?init))) = data
        \<and> (\<forall>x \<in> set (fst (feed later (snd (feed reqs ?init)))). x = (0, []))" by simp
  qed
  from 1 2 show ?thesis by blast
qed

theorem put_body_complete_witness:
  "length ''hello'' \<le> sum_list (map capacity [(1, 2), (1, 2), (1, 2)])
   \<and> concat (map snd (fst (feed [(1, 2), (1, 2), (1, 2)]
                               (SetPutMethodData ''hello'' RequestImpl_new)))) = ''hello''
   \<and> fst (PutMethodReadCallback 1 2
            (snd (feed [(1, 2), (1, 2)] (SetPutMethodData ''hello'' RequestImpl_new)))) = 1"
  using put_body_complete [of 1 2 "[(1, 2), (1, 2)]" "''hello''" RequestImpl_new
      "[(1, 2), (1, 2), (1, 2)]" "[]"]
  by (simp add: capacity_def PutMethodReadCallback_def SetPutMethodData_def RequestImpl_new_def
      Let_def)

text \<open>
  C7: a PUT of the six bytes \<open>abcdef\<close> with \<open>retry(2, false)\<close>. The first attempt
  reads four bytes and the server answers 503; the timer fires and the second attempt is in
  flight, with two bytes remaining at offset 4. Within the second attempt two read
  callbacks with a capacity of four bytes each, eight in all and so at least the size of the
  payload, return 2 and 0: each is the smaller of the bytes remaining and the capacity, and
  the call after the drain returns 0, but the bytes copied are \<open>ef\<close> and not the payload.
  The calls of an attempt after the first go on from where the attempt before stopped.
\<close>

theorem put_body_incomplete_on_retry:
  "length ''abcdef'' \<le> sum_list (map capacity [(1, 4), (1, 4)])
   \<and> map_option
       (\<lambda>st. (easy_handler st, attempts st, put_offset st, put_remaining st,
              fst (feed [(1, 4), (1, 4)] st),
              concat (map snd (fst (feed [(1, 4), (1, 4)] st))) = ''abcdef''))
       (run [ReadBody 1 4, TransferDone 0 503 0, TimerFired 0]
          (async_perform (Request_retry 2 False (Request_put ''abcdef'' RequestImpl_new))))
     = Some (Some OnRetry, 2, 4, 2, [(2, ''ef''), (0, [])], False)"
  by (simp add: machine_defs Request_put_def SetPutMethodData_def PutMethodReadCallback_def
      capacity_def put_offset_def put_remaining_def)

subsection \<open>The header parser\<close>

lemma rfind_not_space_prefix:
  "n \<le> length ys \<Longrightarrow> rfind_not_space (ys @ zs) n = rfind_not_space ys n"
  by (induction n) (simp_all add: nth_append)

lemma rfind_not_space_snoc:
  "is_trimmed c \<Longrightarrow>
     rfind_not_space (ys @ [c]) (Suc (length ys)) = rfind_not_space ys (length ys)"
  by (simp add: rfind_not_space_prefix)

lemma rfind_not_space_trailing:
  "\<forall>c \<in> set T. is_trimmed c \<Longrightarrow>
     rfind_not_space (xs @ T) (length (xs @ T)) = rfind_not_space xs (length xs)"
proof (induction T rule: rev_induct)
  case Nil
  then show ?case by simp
next
  case (snoc c T)
  have "rfind_not_space (xs @ T @ [c]) (length (xs @ T @ [c]))
        = rfind_not_space ((xs @ T) @ [c]) (Suc (length (xs @ T)))" by simp
  also have "\<dots> = rfind_not_space (xs @ T) (length (xs @ T))"
    using snoc.prems by (intro rfind_not_space_snoc) simp
  also have "\<dots> = rfind_not_space xs (length xs)" using snoc by simp
  finally show ?case .
qed

lemma rfind_not_space_last:
  assumes "xs \<noteq> []" and "\<not> is_trimmed (last xs)"
  shows "rfind_not_space xs (length xs) = length xs"
proof -
  from assms(1) obtain n where n: "length xs = Suc n" by (cases xs) auto
  with assms(1) have "xs ! n = last xs" by (simp add: last_conv_nth)
  with assms(2) n show ?thesis by simp
qed

lemma strchr_found:
  "c \<notin> set K \<Longrightarrow> CHR 0x00 \<notin> set K \<Longrightarrow> strchr (K @ c # rest) c = Some (length K)"
  by (induction K) auto

lemma strchr_absent:
  "c \<notin> set s \<Longrightarrow> strchr s c = None"
  by (induction s) auto

text \<open>
  C8: for a line \<open>K:W\<close> followed by any number of line feeds, carriage returns and
  spaces, where \<open>K\<close> has no colon and no NUL byte and \<open>W\<close> does not end in one of
  the three trimmed characters, \<open>parse_header\<close> stores exactly the pair of \<open>K\<close> and
  \<open>W\<close>: the value is everything after the first colon, leading whitespace included. A
  line with no colon, or with nothing left after trimming, changes nothing.
\<close>

theorem parse_header_stores:
  "(CHR '':'' \<notin> set K \<and> CHR 0x00 \<notin> set K \<and> (W = [] \<or> \<not> is_trimmed (last W))
      \<and> (\<forall>c \<in> set T. is_trimmed c)
     \<longrightarrow> parse_header (K @ CHR '':'' # W @ T) impl =
           impl\<lparr>response_m :=
             (response_m impl)\<lparr>headers := (headers (response_m impl))(K \<mapsto> W)\<rparr>\<rparr>)
   \<and> (CHR '':'' \<notin> set line \<or> rfind_not_space line (length line) = 0
     \<longrightarrow> parse_header line impl = impl)"
proof (intro conjI impI)
  assume a: "CHR '':'' \<notin> set K \<and> CHR 0x00 \<notin> set K \<and> (W = [] \<or> \<not> is_trimmed (last W))
      \<and> (\<forall>c \<in> set T. is_trimmed c)"
  let ?body = "K @ CHR '':'' # W"
  have nl: "\<not> is_trimmed (last ?body)" using a by (auto simp: is_trimmed_def)
  have e: "rfind_not_space (?body @ T) (length (?body @ T)) = length ?body"
    using a rfind_not_space_trailing [of T ?body] rfind_not_space_last [OF _ nl] by simp
  have mem: "take (length ?body) (?body @ T) @ CHR 0x00 # drop (Suc (length ?body)) (?body @ T)
             = K @ CHR '':'' # (W @ CHR 0x00 # drop (Suc 0) T)"
    by simp
  have s: "strchr (K @ CHR '':'' # (W @ CHR 0x00 # drop (Suc 0) T)) CHR '':'' = Some (length K)"
    using a by (intro strchr_found) simp_all
  have "parse_header (?body @ T) impl =
           impl\<lparr>response_m :=
             (response_m impl)\<lparr>headers := (headers (response_m impl))(K \<mapsto> W)\<rparr>\<rparr>"
    by (simp only: parse_header_def Let_def e mem s) simp
  then show "parse_header (K @ CHR '':'' # W @ T) impl =
           impl\<lparr>response_m :=
             (response_m impl)\<lparr>headers := (headers (response_m impl))(K \<mapsto> W)\<rparr>\<rparr>"
    by simp
next
  assume a: "CHR '':'' \<notin> set line \<or> rfind_not_space line (length line) = 0"
  show "parse_header line impl = impl"
  proof (cases "rfind_not_space line (length line) = 0")
    case True
    then show ?thesis by (simp add: parse_header_def)
  next
    case False
    with a have n: "CHR '':'' \<notin> set line" by simp
    let ?e = "rfind_not_space line (length line)"
    have "CHR '':'' \<notin> set (take ?e line @ CHR 0x00 # drop (Suc ?e) line)"
      using n by (auto dest: in_set_takeD in_set_dropD)
    then have "strchr (take ?e line @ CHR 0x00 # drop (Suc ?e) line) CHR '':'' = None"
      by (rule strchr_absent)
    then show ?thesis by (simp add: parse_header_def Let_def)
  qed
qed

theorem parse_header_stores_witness:
  "parse_header (''Host'' @ CHR '':'' # '' a b'' @ [CHR 0x0D, CHR 0x0A]) RequestImpl_new =
     RequestImpl_new\<lparr>response_m :=
       (response_m RequestImpl_new)\<lparr>headers :=
          (headers (response_m RequestImpl_new))(''Host'' \<mapsto> '' a b'')\<rparr>\<rparr>
   \<and> parse_header [CHR 0x0D, CHR 0x0A] RequestImpl_new = RequestImpl_new"
  using parse_header_stores [of "''Host''" "'' a b''" "[CHR 0x0D, CHR 0x0A]" RequestImpl_new
      "[CHR 0x0D, CHR 0x0A]"]
  by (simp add: is_trimmed_def)

text \<open>
  The space after the colon stays in the value: the line \<open>K: V\<close> with CR LF stores the
  value \<open>V\<close> with a leading space, not \<open>V\<close>.
\<close>

theorem parse_header_value_counterexample:
  "headers (response_m (parse_header (''K: V'' @ [CHR 0x0D, CHR 0x0A]) RequestImpl_new)) ''K''
     = Some '' V''
   \<and> headers (response_m (parse_header (''K: V'' @ [CHR 0x0D, CHR 0x0A]) RequestImpl_new)) ''K''
     \<noteq> Some ''V''"
  by (simp add: parse_header_def is_trimmed_def RequestImpl_new_def Let_def eval_nat_numeral)

subsection \<open>Rounding to binary64\<close>

lemma round_half_even_cases:
  assumes "0 \<le> m"
  obtains (down) "round_half_even m k = m div 2 ^ k" "2 * (m mod 2 ^ k) \<le> 2 ^ k"
  | (up) "round_half_even m k = m div 2 ^ k + 1" "2 ^ k \<le> 2 * (m mod 2 ^ k)"
  by (cases "2 * (m mod 2 ^ k) < 2 ^ k"; cases "2 ^ k < 2 * (m mod 2 ^ k)";
      cases "even (m div 2 ^ k)") (auto simp: round_half_even_def Let_def)

lemma round_half_even_error:
  assumes "0 \<le> m"
  shows "2 * \<bar>round_half_even m k * 2 ^ k - m\<bar> \<le> 2 ^ k"
proof -
  define P :: int where "P = 2 ^ k"
  define q where "q = m div P"
  define r where "r = m mod P"
  have m: "m = q * P + r" by (simp add: q_def r_def)
  have r: "0 \<le> r" "r < P" by (simp_all add: r_def P_def)
  from assms show ?thesis
  proof (cases rule: round_half_even_cases [of m k])
    case down
    then have e: "round_half_even m k = q" and c: "2 * r \<le> P"
      by (simp_all add: q_def r_def P_def)
    have "round_half_even m k * P - m = - r" unfolding e using m by simp
    with r c show ?thesis by (simp add: P_def)
  next
    case up
    then have e: "round_half_even m k = q + 1" and c: "P \<le> 2 * r"
      by (simp_all add: q_def r_def P_def)
    have "round_half_even m k * P - m = P - r" unfolding e using m by (simp add: algebra_simps)
    with r c show ?thesis by (simp add: P_def)
  qed
qed

lemma round_half_even_ge_div:
  assumes "0 \<le> m"
  shows "m div 2 ^ k \<le> round_half_even m k"
  using assms by (cases rule: round_half_even_cases [of m k]) simp_all

lemma round53_exact:
  assumes "0 \<le> m" and "m < 2 ^ 53"
  shows "round53 m e = (m, e)"
proof -
  have "bitlen m \<le> 53" using assms by (simp add: bitlen_le_iff_power)
  with assms show ?thesis by (simp add: round53_def)
qed

lemma round53_rounded:
  assumes "0 \<le> m" and "\<not> bitlen m - 53 \<le> 0"
  shows "round53 m e = (round_half_even m (nat (bitlen m - 53)), e + (bitlen m - 53))"
    and "2 ^ 52 * 2 ^ nat (bitlen m - 53) \<le> m"
proof -
  from assms have pos: "0 < m" by (cases "m = 0") auto
  with assms show "round53 m e = (round_half_even m (nat (bitlen m - 53)), e + (bitlen m - 53))"
    by (simp add: round53_def Let_def)
  from assms(2) have "nat (bitlen m - 1) = 52 + nat (bitlen m - 53)" by simp
  with bitlen_bounds [OF pos] show "2 ^ 52 * 2 ^ nat (bitlen m - 53) \<le> m"
    by (simp add: power_add)
qed

lemma round53_nonneg:
  assumes "0 \<le> m"
  shows "0 \<le> fst (round53 m e)"
proof (cases "bitlen m - 53 \<le> 0")
  case True
  with assms show ?thesis by (simp add: round53_def)
next
  case False
  have "0 \<le> m div 2 ^ nat (bitlen m - 53)" using assms by (simp add: pos_imp_zdiv_nonneg_iff)
  with round_half_even_ge_div [OF assms, of "nat (bitlen m - 53)"]
    round53_rounded(1) [OF assms False, of e]
  show ?thesis by simp
qed

lemma dval_pair: "dval (m, e) = of_int m * power_int 2 e"
  by (simp add: dval_def)

lemma round53_error:
  assumes "0 \<le> m"
  shows "\<bar>dval (round53 m e) - dval (m, e)\<bar> \<le> dval (m, e) / 2 ^ 53"
proof (cases "bitlen m - 53 \<le> 0")
  case True
  with assms show ?thesis by (simp add: round53_def dval_pair)
next
  case False
  define k where "k = nat (bitlen m - 53)"
  have ki: "bitlen m - 53 = int k" using False by (simp add: k_def)
  note r = round53_rounded(1) [OF assms False, of e, folded k_def]
    round53_rounded(2) [OF assms False, folded k_def]
  have "2 * \<bar>round_half_even m k * 2 ^ k - m\<bar> \<le> 2 ^ k"
    by (rule round_half_even_error [OF assms])
  moreover have "2 ^ 52 * 2 ^ k \<le> m" by (rule r(2))
  ultimately have "2 ^ 53 * \<bar>round_half_even m k * 2 ^ k - m\<bar> \<le> m" by simp
  then have "(of_int (2 ^ 53 * \<bar>round_half_even m k * 2 ^ k - m\<bar>) :: rat) \<le> of_int m"
    by (simp only: of_int_le_iff)
  then have i: "2 ^ 53 * \<bar>of_int (round_half_even m k) * 2 ^ k - (of_int m :: rat)\<bar> \<le> of_int m"
    by simp
  have p: "(0::rat) < power_int 2 e" by simp
  have "dval (round53 m e) - dval (m, e)
        = (of_int (round_half_even m k) * 2 ^ k - of_int m) * power_int 2 e"
    by (simp add: r(1) ki dval_pair power_int_add algebra_simps)
  then have "\<bar>dval (round53 m e) - dval (m, e)\<bar>
        = \<bar>of_int (round_half_even m k) * 2 ^ k - of_int m\<bar> * power_int 2 e"
    using p by (simp add: abs_mult)
  also have "\<dots> \<le> (of_int m / 2 ^ 53) * power_int 2 e"
    using i p by (intro mult_right_mono) (simp_all add: field_simps)
  finally show ?thesis by (simp add: dval_pair)
qed

lemma round53_keeps_integer_bound:
  assumes "0 \<le> m" and "0 \<le> K" and "K < 2 ^ 53" and "of_int K \<le> dval (m, e)"
  shows "of_int K \<le> dval (round53 m e)"
proof (cases "bitlen m - 53 \<le> 0")
  case True
  with assms show ?thesis by (simp add: round53_def)
next
  case False
  define k where "k = nat (bitlen m - 53)"
  have ki: "bitlen m - 53 = int k" using False by (simp add: k_def)
  note r = round53_rounded(1) [OF assms(1) False, of e, folded k_def]
    round53_rounded(2) [OF assms(1) False, folded k_def]
  define q where "q = m div 2 ^ k"
  have q52: "2 ^ 52 \<le> q"
  proof -
    have "(2 ^ 52 * 2 ^ k) div 2 ^ k \<le> m div (2 ^ k :: int)"
      using r(2) by (intro zdiv_mono1) simp_all
    then show ?thesis by (simp add: q_def)
  qed
  have qr: "q \<le> round_half_even m k"
    unfolding q_def by (rule round_half_even_ge_div [OF assms(1)])
  have v: "dval (round53 m e) = of_int (round_half_even m k) * power_int 2 (e + int k)"
    by (simp add: r(1) ki dval_pair)
  have ge: "of_int q * power_int 2 (e + int k) \<le> dval (round53 m e)"
    unfolding v using qr by (intro mult_right_mono) simp_all
  show ?thesis
  proof (cases "0 < e + int k")
    case True
    then have "(2::rat) ^ 1 \<le> 2 ^ nat (e + int k)"
      by (intro power_increasing) simp_all
    then have "(2::rat) \<le> power_int 2 (e + int k)"
      using True by (simp add: power_int_nonneg_exp)
    moreover have "(2 ^ 52 :: rat) \<le> of_int q"
      using q52 by (metis of_int_le_iff of_int_numeral of_int_power)
    ultimately have "(2 ^ 52 :: rat) * 2 \<le> of_int q * power_int 2 (e + int k)"
      by (intro mult_mono) simp_all
    moreover have "(of_int K :: rat) < 2 ^ 53"
      using assms(3) by (metis of_int_less_iff of_int_numeral of_int_power)
    ultimately show ?thesis using ge by simp
  next
    case False
    define j where "j = nat (- (e + int k))"
    have e: "e = - int (j + k)" using False by (simp add: j_def)
    have pj: "power_int (2::rat) (e + int k) = 1 / 2 ^ j"
      by (simp add: e power_int_minus_divide)
    have pe: "power_int (2::rat) e = 1 / 2 ^ (j + k)"
      unfolding e by (simp only: power_int_minus_divide power_int_of_nat)
    from assms(4) have "of_int K * 2 ^ (j + k) \<le> (of_int m :: rat)"
      by (simp add: dval_pair pe field_simps)
    then have "(of_int (K * 2 ^ (j + k)) :: rat) \<le> of_int m" by simp
    then have "K * 2 ^ (j + k) \<le> m" by (simp only: of_int_le_iff)
    then have "(K * 2 ^ j * 2 ^ k) div 2 ^ k \<le> m div (2 ^ k :: int)"
      by (intro zdiv_mono1) (simp_all add: power_add mult.assoc)
    then have "K * 2 ^ j \<le> q" by (simp add: q_def)
    then have "(of_int (K * 2 ^ j) :: rat) \<le> of_int q" by (simp only: of_int_le_iff)
    then have "(of_int K :: rat) \<le> of_int q * power_int 2 (e + int k)"
      by (simp add: pj field_simps)
    with ge show ?thesis by simp
  qed
qed

lemma d1_1_value: "dval d1_1 = 11 / 10 + 1 / (5 * 2 ^ 51)"
  by (simp add: dval_def d1_1_def power_int_minus_divide)

lemma d1_1_nearest: "\<bar>dval d1_1 - 11 / 10\<bar> \<le> 1 / 2 ^ 53"
  by (simp add: d1_1_value)

lemma dmul_value:
  "dval (fst a * fst b, snd a + snd b) = dval a * dval b"
  by (simp add: dval_def power_int_add)

lemma dadd_value:
  "dval (fst a * 2 ^ nat (snd a - min (snd a) (snd b))
         + fst b * 2 ^ nat (snd b - min (snd a) (snd b)), min (snd a) (snd b))
   = dval a + dval b"
proof -
  define e where "e = min (snd a) (snd b)"
  have p: "(2::rat) ^ nat (x - e) * power_int 2 e = power_int 2 x" if "e \<le> x" for x
  proof -
    have "(2::rat) ^ nat (x - e) = power_int 2 (x - e)"
      using that by (simp add: power_int_nonneg_exp)
    then show ?thesis by (simp add: power_int_add [symmetric])
  qed
  have "e \<le> snd a" "e \<le> snd b" by (simp_all add: e_def)
  from p [OF this(1)] p [OF this(2)] show ?thesis
    unfolding e_def [symmetric] by (simp add: dval_def algebra_simps)
qed

lemma long_of_double_floor:
  assumes "0 \<le> fst d" and "dval d < 2 ^ 63"
  shows "long_of_double d = Some \<lfloor>dval d\<rfloor>"
proof -
  define v where "v = (if 0 \<le> snd d then fst d * 2 ^ nat (snd d)
               else sgn (fst d) * (\<bar>fst d\<bar> div 2 ^ nat (- snd d)))"
  have v: "v = \<lfloor>dval d\<rfloor>"
  proof (cases "0 \<le> snd d")
    case True
    then have "dval d = of_int (fst d * 2 ^ nat (snd d))"
      by (simp add: dval_def power_int_nonneg_exp)
    then have "\<lfloor>dval d\<rfloor> = \<lfloor>of_int (fst d * 2 ^ nat (snd d)) :: rat\<rfloor>" by (rule arg_cong)
    also have "\<dots> = fst d * 2 ^ nat (snd d)" by (rule floor_of_int)
    finally show ?thesis using True by (simp add: v_def)
  next
    case False
    then have "snd d = - int (nat (- snd d))" by simp
    then have "power_int (2::rat) (snd d) = 1 / 2 ^ nat (- snd d)"
      by (metis power_int_minus_divide power_int_of_nat)
    then have "dval d = of_int (fst d) / of_int (2 ^ nat (- snd d))"
      by (simp add: dval_def)
    then have "\<lfloor>dval d\<rfloor> = \<lfloor>of_int (fst d) / of_int (2 ^ nat (- snd d)) :: rat\<rfloor>"
      by (rule arg_cong)
    also have "\<dots> = fst d div 2 ^ nat (- snd d)" by (rule floor_divide_of_int_eq)
    finally have "\<lfloor>dval d\<rfloor> = fst d div 2 ^ nat (- snd d)" .
    moreover have "sgn (fst d) * (\<bar>fst d\<bar> div 2 ^ nat (- snd d)) = fst d div 2 ^ nat (- snd d)"
      using assms(1) by (cases "fst d = 0") simp_all
    ultimately show ?thesis using False by (simp add: v_def)
  qed
  have nn: "0 \<le> dval d" using assms(1) by (simp add: dval_def)
  then have "0 \<le> v" unfolding v by simp
  moreover have "v < 2 ^ 63"
  proof -
    have "(of_int \<lfloor>dval d\<rfloor> :: rat) \<le> dval d" by simp
    with assms(2) have "(of_int v :: rat) < of_int (2 ^ 63)" unfolding v by simp
    then show ?thesis by (simp only: of_int_less_iff)
  qed
  ultimately show ?thesis
    unfolding long_of_double_def v_def [symmetric] Let_def using v by simp
qed

lemma times_1_1_lower:
  assumes "0 \<le> t" and "t < 2 ^ 51"
  shows "of_int t * (11 / 10) \<le> dval (round53 (t * 2476979795053773) (- 51))"
proof -
  define M where "M = t * 2476979795053773"
  have M0: "0 \<le> M" using assms(1) by (simp add: M_def)
  show ?thesis
  proof (cases "bitlen M - 53 \<le> 0")
    case True
    then have "round53 M (- 51) = (M, - 51)" using M0 by (simp add: round53_def)
    moreover have "(of_int t :: rat) * (11 / 10) \<le> of_int M / 2 ^ 51"
      using assms(1) by (simp add: M_def field_simps)
    ultimately show ?thesis
      by (simp add: M_def [symmetric] dval_pair power_int_minus_divide)
  next
    case False
    define k where "k = nat (bitlen M - 53)"
    define P :: int where "P = 2 ^ k"
    have ki: "bitlen M - 53 = int k" using False by (simp add: k_def)
    have r1: "round53 M (- 51) = (round_half_even M k, - 51 + int k)"
      using round53_rounded(1) [OF M0 False, of "- 51"] False by (simp add: k_def)
    have r2: "2 ^ 52 * P \<le> M"
      using round53_rounded(2) [OF M0 False] by (simp add: k_def P_def)
    have "M < 2 ^ 51 * 2476979795053773" using assms by (simp add: M_def)
    then have "M < 2 ^ nat 103" by simp
    then have "bitlen M \<le> 103" using bitlen_le_iff_power [of M 103] by simp
    then have k50: "k \<le> 50" by (simp add: k_def)
    then have Pd: "P dvd 2 ^ 50" unfolding P_def by (rule le_imp_power_dvd)
    have P0: "0 < P" by (simp add: P_def)
    define q where "q = M div P"
    define r where "r = M mod P"
    have m: "M = q * P + r" by (simp add: q_def r_def)
    have r: "0 \<le> r" "r < P" using P0 by (simp_all add: r_def)
    have key: "11 * 2 ^ 50 * t \<le> 5 * (round_half_even M k * P)"
      using M0
    proof (cases rule: round_half_even_cases [of M k])
      case up
      then have "round_half_even M k * P = q * P + P"
        by (simp add: q_def P_def algebra_simps)
      with m r assms(1) show ?thesis by (simp add: M_def)
    next
      case down
      then have e: "round_half_even M k * P = q * P" and c: "2 * r \<le> P"
        by (simp_all add: q_def r_def P_def)
      have "5 * r \<le> t"
      proof (rule ccontr)
        assume "\<not> 5 * r \<le> t"
        then have pos: "0 < 5 * r - t" by simp
        have "5 * r - t = 11 * 2 ^ 50 * t - 5 * q * P"
          using m by (simp add: M_def)
        moreover have "P dvd 11 * 2 ^ 50 * t"
        proof -
          have "P dvd 2 ^ 50 * (11 * t)" using Pd by (rule dvd_mult2)
          then show ?thesis by simp
        qed
        moreover have "P dvd 5 * q * P" by simp
        ultimately have "P dvd 5 * r - t" by (simp only: dvd_diff)
        from zdvd_imp_le [OF this pos] have "P \<le> 5 * r - t" .
        with c have "2 * t \<le> 3 * P" by simp
        with r2 P0 show False by (simp add: M_def)
      qed
      moreover from m have "5 * (q * P) = 5 * (t * 2476979795053773) - 5 * r"
        by (simp add: M_def)
      ultimately show ?thesis unfolding e by simp
    qed
    have "(of_int (11 * 2 ^ 50 * t) :: rat) \<le> of_int (5 * (round_half_even M k * P))"
      using key by (simp only: of_int_le_iff)
    then have "(of_int t :: rat) * (11 / 10) \<le> of_int (round_half_even M k) * 2 ^ k / 2 ^ 51"
      by (simp add: P_def field_simps)
    moreover have "dval (round53 M (- 51)) = of_int (round_half_even M k) * 2 ^ k / 2 ^ 51"
    proof -
      have "power_int (2::rat) (- 51 + int k) = power_int 2 (- 51) * power_int 2 (int k)"
        by (rule power_int_add) simp
      also have "\<dots> = 2 ^ k / 2 ^ 51" by (simp add: power_int_minus_divide)
      finally show ?thesis by (simp add: r1 dval_pair)
    qed
    ultimately show ?thesis by (simp add: M_def [symmetric])
  qed
qed

subsection \<open>The aggregate timeout\<close>

lemma max_retry_time_loop_sum:
  "max_retry_time_loop i number time_ms =
     time_ms + (\<Sum>j \<in> {i..<number}. 25 * (2 ^ nat (min (j - 1) 5) + 1))"
proof (induction i number time_ms rule: max_retry_time_loop.induct)
  case (1 i number time_ms)
  show ?case
  proof (cases "i < number")
    case True
    then have s: "{i..<number} = insert i {i + 1..<number}" by auto
    have "(\<Sum>j \<in> {i..<number}. 25 * (2 ^ nat (min (j - 1) 5) + 1)) =
          25 * (2 ^ nat (min (i - 1) 5) + 1)
          + (\<Sum>j \<in> {i + 1..<number}. 25 * (2 ^ nat (min (j - 1) 5) + 1 :: int))"
      unfolding s by (subst sum.insert) simp_all
    with True "1.IH" show ?thesis
      by (subst max_retry_time_loop.simps)
        (simp add: kEBBaseTime_def kMaxRetryInTimeout_def shl1_def)
  next
    case False
    then show ?thesis by (subst max_retry_time_loop.simps) simp
  qed
qed

lemma backoff_term_bounds:
  "0 \<le> 25 * (2 ^ nat (min (j - 1) 5) + 1 :: int)"
  "25 * (2 ^ nat (min (j - 1) 5) + 1 :: int) \<le> 825"
proof -
  have "nat (min (j - 1) 5) \<le> 5" by simp
  then have "(2::int) ^ nat (min (j - 1) 5) \<le> 2 ^ 5" by (intro power_increasing) simp_all
  then show "25 * (2 ^ nat (min (j - 1) 5) + 1 :: int) \<le> 825" by simp
  show "0 \<le> 25 * (2 ^ nat (min (j - 1) 5) + 1 :: int)" by simp
qed

lemma max_retry_time_bounds:
  "0 \<le> max_retry_time number" "max_retry_time number < 2 ^ 25"
proof -
  let ?f = "\<lambda>j :: int. 25 * (2 ^ nat (min (j - 1) 5) + 1 :: int)"
  let ?A = "{1..<sint number}"
  have v: "max_retry_time number = sum ?f ?A"
    by (simp add: max_retry_time_def max_retry_time_loop_sum)
  show "0 \<le> max_retry_time number"
    unfolding v by (intro sum_nonneg) simp
  have "sum ?f ?A \<le> (\<Sum>j \<in> ?A. 825)"
    by (intro sum_mono backoff_term_bounds(2))
  also have "\<dots> = 825 * int (card ?A)" by simp
  also have "\<dots> \<le> 825 * 2 ^ 15"
  proof -
    have "sint number < 2 ^ 15" using sint_range_size [of number] by (simp add: word_size)
    then have "int (card ?A) \<le> 2 ^ 15" by simp
    then show ?thesis by simp
  qed
  finally show "max_retry_time number < 2 ^ 25" unfolding v by simp
qed

lemma complete_timeout_floor:
  assumes t: "0 \<le> t" and n: "1 \<le> n" "n < 2 ^ 15" and tn: "t * n < 2 ^ 40"
    and m: "0 \<le> m" "m < 2 ^ 25"
  shows "long_of_double
           (dadd (dmul (dmul (double_of_int t) d1_1) (double_of_int n)) (double_of_int m))
         = Some ((11 * (t * n) + 10 * m) div 10)"
proof -
  define W :: rat where "W = of_int (t * n)"
  define E :: rat where "E = 11 / 10 * W + of_int m"
  define F where "F = (11 * (t * n) + 10 * m) div 10"
  have W: "0 \<le> W" "W < 2 ^ 40"
  proof -
    show "0 \<le> W" using t n by (simp add: W_def)
    have "(of_int (t * n) :: rat) < of_int (2 ^ 40)" using tn by (simp only: of_int_less_iff)
    then show "W < 2 ^ 40" by (simp add: W_def)
  qed
  have mr: "(0::rat) \<le> of_int m" "(of_int m :: rat) < 2 ^ 25"
  proof -
    show "(0::rat) \<le> of_int m" using m by simp
    have "(of_int m :: rat) < of_int (2 ^ 25)" using m by (simp only: of_int_less_iff)
    then show "(of_int m :: rat) < 2 ^ 25" by simp
  qed
  have tlt: "t < 2 ^ 40"
  proof -
    have "t * 1 \<le> t * n" using t n by (intro mult_left_mono) simp_all
    with tn show ?thesis by simp
  qed
  have dt: "double_of_int t = (t, 0)"
    unfolding double_of_int_def using t tlt by (intro round53_exact) simp_all
  have dn: "double_of_int n = (n, 0)"
    unfolding double_of_int_def using n by (intro round53_exact) simp_all
  have dm: "double_of_int m = (m, 0)"
    unfolding double_of_int_def using m by (intro round53_exact) simp_all

  define a where "a = round53 (t * 2476979795053773) (- 51)"
  have a: "dmul (double_of_int t) d1_1 = a"
    by (simp add: dt dmul_def d1_1_def a_def)
  have a0: "0 \<le> fst a" unfolding a_def using t by (intro round53_nonneg) simp
  have la: "of_int t * (11 / 10) \<le> dval a"
    unfolding a_def using t tlt by (intro times_1_1_lower) simp_all
  define x :: rat where "x = of_int t * (11 / 10 + 1 / (5 * 2 ^ 51))"
  have xv: "dval (t * 2476979795053773, - 51) = x"
    by (simp add: dval_pair x_def power_int_minus_divide field_simps)
  have ua: "dval a \<le> x + x / 2 ^ 53"
  proof -
    have "\<bar>dval a - x\<bar> \<le> x / 2 ^ 53"
      using round53_error [of "t * 2476979795053773" "- 51"] t
      unfolding a_def [symmetric] xv by simp
    then show ?thesis by linarith
  qed

  define y where "y = dval a * of_int n"
  define b where "b = round53 (fst a * n) (snd a)"
  have b: "dmul a (double_of_int n) = b" by (simp add: dn dmul_def b_def)
  have an0: "0 \<le> fst a * n" using a0 n by simp
  have yv: "dval (fst a * n, snd a) = y" by (simp add: dval_def y_def)
  have b0: "0 \<le> fst b" unfolding b_def using an0 by (rule round53_nonneg)
  have eb: "\<bar>dval b - y\<bar> \<le> y / 2 ^ 53"
    using round53_error [OF an0, of "snd a"] unfolding b_def [symmetric] yv .
  have nr: "(0::rat) \<le> of_int n" using n by simp
  have yl: "11 / 10 * W \<le> y"
  proof -
    have "of_int t * (11 / 10) * of_int n \<le> dval a * (of_int n :: rat)"
      using la nr by (rule mult_right_mono)
    then show ?thesis by (simp add: y_def W_def)
  qed
  have yu: "y \<le> 11 / 10 * W + 1 / 4096"
  proof -
    have "dval a * of_int n \<le> (x + x / 2 ^ 53) * (of_int n :: rat)"
      using ua nr by (rule mult_right_mono)
    also have "\<dots> = W * ((11 / 10 + 1 / (5 * 2 ^ 51)) * (1 + 1 / 2 ^ 53))"
      by (simp add: x_def W_def algebra_simps)
    finally have "y \<le> W * ((11 / 10 + 1 / (5 * 2 ^ 51)) * (1 + 1 / 2 ^ 53))"
      by (simp add: y_def)
    with W show ?thesis by simp
  qed

  define z where "z = dval b + of_int m"
  define mant where "mant = fst b * 2 ^ nat (snd b - min (snd b) 0) + m * 2 ^ nat (0 - min (snd b) 0)"
  define s where "s = round53 mant (min (snd b) 0)"
  have s: "dadd b (double_of_int m) = s"
    by (simp add: dm dadd_def s_def mant_def Let_def)
  have mant0: "0 \<le> mant" unfolding mant_def using b0 m by simp
  have zv: "dval (mant, min (snd b) 0) = z"
    using dadd_value [of b "(m, 0)"] by (simp add: mant_def z_def dval_pair)
  have s0: "0 \<le> fst s" unfolding s_def using mant0 by (rule round53_nonneg)
  have es: "\<bar>dval s - z\<bar> \<le> z / 2 ^ 53"
    using round53_error [OF mant0, of "min (snd b) 0"] unfolding s_def [symmetric] zv .

  have b1: "y - y / 2 ^ 53 \<le> dval b" "dval b \<le> y + y / 2 ^ 53"
    using eb by linarith+
  have ey: "y / 2 ^ 53 \<le> 1 / 4096" using yu W by simp
  have bl: "11 / 10 * W - 1 / 4096 \<le> dval b" using b1(1) ey yl by linarith
  have bu: "dval b \<le> 11 / 10 * W + 1 / 2048" using b1(2) ey yu by linarith
  have zl: "E - 1 / 4096 \<le> z" and zu: "z \<le> E + 1 / 2048"
    using bl bu by (simp_all add: z_def E_def)
  have Eb: "0 \<le> E" "E < 2 ^ 41 - 1" using W mr by (simp_all add: E_def)
  have s1: "z - z / 2 ^ 53 \<le> dval s" "dval s \<le> z + z / 2 ^ 53"
    using es by linarith+
  have ez: "z / 2 ^ 53 \<le> 1 / 4096" using zu Eb by simp
  have sl: "E - 1 / 2048 \<le> dval s" using s1(1) ez zl by linarith
  have su: "dval s \<le> E + 1 / 1024" using s1(2) ez zu by linarith

  have EF: "E = of_int (11 * (t * n) + 10 * m) / 10"
    by (simp add: E_def W_def field_simps)
  have fl: "\<lfloor>dval s\<rfloor> = F"
  proof (cases "10 dvd t * n")
    case True
    then obtain c where c: "t * n = 10 * c" by (auto elim: dvdE)
    have "0 \<le> t * n" using t n by simp
    then have c0: "0 \<le> c" unfolding c by simp
    have Fc: "F = 11 * c + m" by (simp add: F_def c)
    have W10: "W = of_int (10 * c)" by (simp only: W_def c)
    have Wc: "11 / 10 * W = of_int (11 * c)" unfolding W10 by simp
    have Ec: "E = of_int (11 * c + m)" unfolding E_def Wc by simp
    have cl: "11 * c < 2 ^ 41"
    proof -
      have "11 / 10 * W < 2 ^ 41" using W by simp
      then have "(of_int (11 * c) :: rat) < of_int (2 ^ 41)"
        unfolding Wc by simp
      then show ?thesis by (simp only: of_int_less_iff)
    qed
    have "of_int (11 * c) \<le> dval (fst a * n, snd a)" unfolding yv using yl unfolding Wc .
    then have "of_int (11 * c) \<le> dval b"
      unfolding b_def using an0 c0 cl by (intro round53_keeps_integer_bound) simp_all
    then have "of_int (11 * c + m) \<le> dval (mant, min (snd b) 0)"
      unfolding zv by (simp add: z_def)
    then have "of_int (11 * c + m) \<le> dval s"
      unfolding s_def using mant0 c0 m cl by (intro round53_keeps_integer_bound) simp_all
    moreover have "dval s < of_int (11 * c + m) + 1" using su unfolding Ec by simp
    ultimately show ?thesis unfolding Fc by (rule floor_unique)
  next
    case False
    define N where "N = 11 * (t * n) + 10 * m"
    have Ne: "N = t * n + 10 * (t * n + m)" unfolding N_def by algebra
    have "N mod 10 = (t * n) mod 10" unfolding Ne by (rule mod_mult_self2)
    then have "N mod 10 \<noteq> 0" using False by (simp add: dvd_eq_mod_eq_0)
    then have rho: "1 \<le> N mod 10" "N mod 10 \<le> 9"
      using pos_mod_bound [of 10 N] pos_mod_sign [of 10 N] by simp_all
    have FN: "F = N div 10" by (simp only: F_def N_def)
    have "10 * F + N mod 10 = N" unfolding FN by (rule mult_div_mod_eq)
    then have "(of_int (10 * F + N mod 10) :: rat) = of_int N" by (rule arg_cong)
    then have ofN: "(of_int N :: rat) = 10 * of_int F + of_int (N mod 10)"
      by (simp only: of_int_add of_int_mult of_int_numeral)
    have r1: "(1::rat) \<le> of_int (N mod 10)" "(of_int (N mod 10) :: rat) \<le> 9"
      using rho by simp_all
    have EN: "E = of_int N / 10" unfolding EF N_def ..
    have "of_int F + 1 / 10 \<le> E" "E \<le> of_int F + 9 / 10"
      unfolding EN ofN using r1 by simp_all
    with sl su have "of_int F \<le> dval s" "dval s < of_int F + 1" by linarith+
    then show ?thesis by (rule floor_unique)
  qed
  have "dval s < 2 ^ 63" using su Eb by simp
  from long_of_double_floor [OF s0 this] show ?thesis
    unfolding a b s fl F_def .
qed

lemma scast_short_int:
  fixes r :: short
  shows "sint (scast r :: cint) = sint r" and "(ucast (scast r :: cint) :: short) = r"
proof -
  show "sint (scast r :: cint) = sint r"
    by (simp add: signed_scast_eq signed_take_bit_int_eq_self_iff)
      (use sint_range_size [of r] in \<open>simp add: word_size\<close>)
  show "(ucast (scast r :: cint) :: short) = r"
    by (rule bit_word_eqI) (auto simp: bit_simps)
qed

text \<open>
  In terms of the fields that \<open>Request::async_perform\<close> reads: for a stored per-attempt
  timeout \<open>t \<ge> 0\<close> and a stored count \<open>n \<ge> 1\<close> with \<open>t * n < 2^40\<close> the result
  is the floor of \<open>t * 1.1 * n\<close> plus the sum over \<open>i = 1 .. n-1\<close> of
  \<open>25 * (2^min(i-1, 5) + 1)\<close>.
\<close>

lemma stored_count_timeout_floor:
  assumes "0 \<le> timeout_ms_m impl" and "1 \<le> sint (retry_retries impl)"
    and "timeout_ms_m impl * sint (retry_retries impl) < 2 ^ 40"
  shows "Request_async_perform_timeout impl =
           Some \<lfloor>of_int (timeout_ms_m impl) * (11 / 10) * of_int (sint (retry_retries impl))
                 + of_int (\<Sum>i \<in> {1..<sint (retry_retries impl)}.
                             25 * (2 ^ nat (min (i - 1) 5) + 1)) :: rat\<rfloor>"
proof -
  define t where "t = timeout_ms_m impl"
  define n where "n = sint (retry_retries impl)"
  define m where "m = (\<Sum>i \<in> {1..<n}. 25 * (2 ^ nat (min (i - 1) 5) + 1 :: int))"
  have mv: "max_retry_time (retry_retries impl) = m"
    by (simp add: max_retry_time_def max_retry_time_loop_sum m_def n_def)
  have mb: "0 \<le> m" "m < 2 ^ 25"
    using max_retry_time_bounds [of "retry_retries impl"] unfolding mv by simp_all
  have nb: "n < 2 ^ 15"
    unfolding n_def using sint_range_size [of "retry_retries impl"] by (simp add: word_size)
  have "Request_async_perform_timeout impl =
          long_of_double
            (dadd (dmul (dmul (double_of_int t) d1_1) (double_of_int n)) (double_of_int m))"
    by (simp add: Request_async_perform_timeout_def complete_timeout_def scast_short_int mv
        t_def n_def)
  also have "\<dots> = Some ((11 * (t * n) + 10 * m) div 10)"
    using assms mb nb by (intro complete_timeout_floor) (simp_all add: t_def n_def)
  also have "(11 * (t * n) + 10 * m) div 10
             = \<lfloor>of_int t * (11 / 10) * of_int n + of_int m :: rat\<rfloor>"
  proof -
    have "(of_int t * (11 / 10) * of_int n + of_int m :: rat)
          = of_int (11 * (t * n) + 10 * m) / of_int 10"
      by (simp add: field_simps)
    then show ?thesis by (simp only: floor_divide_of_int_eq)
  qed
  finally show ?thesis unfolding t_def n_def m_def .
qed

text \<open>
  A count from 1 to 32767 given to \<open>retry\<close> is the count stored in the \<open>short\<close>
  field.
\<close>

lemma sint_short_eq_int:
  fixes n :: cint
  assumes "1 \<le> sint n" and "sint n < 2 ^ 15"
  shows "sint (ucast n :: short) = sint n"
proof -
  have "sint (ucast n :: short) = signed_take_bit 15 (uint n)"
    by (simp add: signed_ucast_eq)
  also have "uint n = sint n" using assms(1) by (intro uint_eq_sint_nonneg) simp
  also have "signed_take_bit 15 (sint n) = sint n"
    using assms by (intro signed_take_bit_int_eq_self) simp_all
  finally show ?thesis .
qed

text \<open>
  C5: for a per-attempt timeout \<open>t \<ge> 0\<close> given to \<open>timeout\<close> and an attempt count
  \<open>n\<close> given to \<open>retry\<close>, with \<open>1 \<le> n \<le> 32767\<close> and \<open>t * n < 2^40\<close>, in either
  order of the two calls, the timeout given to the \<open>ResponseFuture\<close> is the floor of
  \<open>t * 1.1 * n\<close> plus the sum over \<open>i = 1 .. n-1\<close> of \<open>25 * (2^min(i-1, 5) + 1)\<close>: the
  conversion to \<open>long\<close> discards the fraction, and in this range the rounding of the three
  \<open>double\<close> operations never moves the result across an integer.
\<close>

theorem aggregate_timeout_floor:
  assumes "0 \<le> t" and "1 \<le> sint n" and "sint n < 2 ^ 15" and "t * sint n < 2 ^ 40"
  shows "Request_async_perform_timeout (set_timeout t (Request_retry n f impl)) =
           Some \<lfloor>of_int t * (11 / 10) * of_int (sint n)
                 + of_int (\<Sum>i \<in> {1..<sint n}. 25 * (2 ^ nat (min (i - 1) 5) + 1)) :: rat\<rfloor>
         \<and> Request_async_perform_timeout (Request_retry n f (set_timeout t impl)) =
           Some \<lfloor>of_int t * (11 / 10) * of_int (sint n)
                 + of_int (\<Sum>i \<in> {1..<sint n}. 25 * (2 ^ nat (min (i - 1) 5) + 1)) :: rat\<rfloor>"
proof -
  have s: "sint (ucast n :: short) = sint n" by (rule sint_short_eq_int [OF assms(2,3)])
  have pos: "\<not> sint n \<le> 0" using assms(2) by simp
  let ?a = "set_timeout t (Request_retry n f impl)"
  let ?b = "Request_retry n f (set_timeout t impl)"
  have a: "timeout_ms_m ?a = t" "sint (retry_retries ?a) = sint n"
    using pos s by (simp_all add: set_timeout_def Request_retry_def retry_def)
  have b: "timeout_ms_m ?b = t" "sint (retry_retries ?b) = sint n"
    using pos s by (simp_all add: set_timeout_def Request_retry_def retry_def)
  have 1: "Request_async_perform_timeout ?a =
           Some \<lfloor>of_int t * (11 / 10) * of_int (sint n)
                 + of_int (\<Sum>i \<in> {1..<sint n}. 25 * (2 ^ nat (min (i - 1) 5) + 1)) :: rat\<rfloor>"
    using stored_count_timeout_floor [of ?a] assms unfolding a by simp
  have 2: "Request_async_perform_timeout ?b =
           Some \<lfloor>of_int t * (11 / 10) * of_int (sint n)
                 + of_int (\<Sum>i \<in> {1..<sint n}. 25 * (2 ^ nat (min (i - 1) 5) + 1)) :: rat\<rfloor>"
    using stored_count_timeout_floor [of ?b] assms unfolding b by simp
  from 1 2 show ?thesis ..
qed

lemma complete_timeout_1_1: "complete_timeout 1 1 = Some 1"
  by code_simp

text \<open>
  Beyond the range of the theorem the rounding of the \<open>double\<close> operations shows: here
  the exact value of \<open>t * 1.1 * n\<close> plus the backoff sum is 572163417979160.9.
\<close>

lemma complete_timeout_large: "complete_timeout 18576070169 28001 = Some 572163417979161"
  by code_simp

theorem aggregate_timeout_floor_witness:
  "(0::int) \<le> 100 \<and> 1 \<le> sint (3 :: cint) \<and> sint (3 :: cint) < 2 ^ 15
   \<and> 100 * sint (3 :: cint) < 2 ^ 40
   \<and> Request_async_perform_timeout (set_timeout 100 (Request_retry 3 False RequestImpl_new))
       = Some 455
   \<and> Request_async_perform_timeout (Request_retry 3 False (set_timeout 100 RequestImpl_new))
       = Some 455"
proof -
  have h: "(0::int) \<le> 100" "1 \<le> sint (3 :: cint)" "sint (3 :: cint) < 2 ^ 15"
    "100 * sint (3 :: cint) < 2 ^ 40" by simp_all
  have s: "sint (3 :: cint) = 3" by simp
  have "{1..<3::int} = {1, 2}" by auto
  then have sum: "(\<Sum>i \<in> {1..<3::int}. 25 * (2 ^ nat (min (i - 1) 5) + 1 :: int)) = 125"
    by simp
  have v: "\<lfloor>of_int 100 * (11 / 10) * of_int 3 + of_int 125 :: rat\<rfloor> = 455" by simp
  note th = aggregate_timeout_floor [OF h, of False RequestImpl_new, unfolded s sum v]
  from h th show ?thesis by blast
qed

text \<open>
  A count above 32767 does not fit the \<open>short\<close> field: \<open>retry(40000, false)\<close> stores
  \<open>-25536\<close>, and with a timeout of 100 ms the result is negative.
\<close>

lemma aggregate_timeout_count_narrowed:
  "Request_async_perform_timeout (set_timeout 100 (Request_retry 40000 False RequestImpl_new))
     = Some (- 2808960)"
proof -
  have "Request_async_perform_timeout
          (set_timeout 100 (Request_retry 40000 False RequestImpl_new))
        = complete_timeout 100 (- 25536)"
    by (simp add: Request_async_perform_timeout_def set_timeout_def Request_retry_def retry_def
        RequestImpl_new_def)
  also have "\<dots> = Some (- 2808960)" by code_simp
  finally show ?thesis .
qed

text \<open>
  The fraction is not rounded up: with a timeout of 1 ms and one attempt the result is
  1 ms, while the ceiling of \<open>1 * 1.1 * 1\<close> is 2.
\<close>

theorem aggregate_timeout_ceil_counterexample:
  "Request_async_perform_timeout (set_timeout 1 RequestImpl_new) = Some 1
   \<and> \<lceil>of_int 1 * (11 / 10) * of_int 1
        + of_int (\<Sum>i \<in> {1..<1::int}. 25 * (2 ^ nat (min (i - 1) 5) + 1)) :: rat\<rceil> = 2"
proof -
  have "Request_async_perform_timeout (set_timeout 1 RequestImpl_new) = complete_timeout 1 1"
    by (simp add: Request_async_perform_timeout_def set_timeout_def RequestImpl_new_def)
  then show ?thesis by (simp add: complete_timeout_1_1 ceiling_eq_iff)
qed

subsection \<open>The header callback\<close>

text \<open>
  C10: whatever the buffer, \<open>size\<close>, \<open>nmemb\<close> and \<open>userdata\<close> (null included),
  \<open>on_header\<close> returns \<open>size * nmemb\<close>, whether or not the line gave a header entry.
\<close>

theorem on_header_returns_data_size:
  "fst (on_header ptr sz nmemb userdata) = sz * nmemb"
  by (simp add: on_header_def Let_def)

end
